theory Spec2Isabelle
  imports Complex_Main "HOL-Library.Word"
begin

section \<open>C numbers\<close>

text \<open>
  A C \<open>float\<close> (and \<open>double\<close>) is a number, one of the two infinities, or a NaN.
  The functions of this section give the exact result of an operation on numbers; a zero
  carries no sign. The special values follow IEEE 754: an operation on a NaN is a NaN, a
  comparison with a NaN is false, \<open>0 * inf\<close>, \<open>inf - inf\<close>, \<open>0 / 0\<close> and \<open>inf / inf\<close>
  are NaN. A zero divisor counts as \<open>+0\<close>. Rounding to the format of the type is a
  function of its own, given in the next section: the model of \<open>population.c\<close> applies
  it to the result of every operation, the model of \<open>nn.c\<close> leaves the results
  unrounded.
\<close>

datatype cfloat = Num real | PInf | NInf | NaN

fun fsign :: "cfloat \<Rightarrow> int" where
  "fsign (Num a) = (if a < 0 then -1 else if a = 0 then 0 else 1)"
| "fsign PInf = 1"
| "fsign NInf = -1"
| "fsign NaN = 0"

fun by_sign :: "int \<Rightarrow> cfloat" where
  "by_sign s = (if s = 0 then NaN else if 0 < s then PInf else NInf)"

fun fneg :: "cfloat \<Rightarrow> cfloat" where
  "fneg (Num a) = Num (- a)"
| "fneg PInf = NInf"
| "fneg NInf = PInf"
| "fneg NaN = NaN"

fun fabs :: "cfloat \<Rightarrow> cfloat" where
  "fabs (Num a) = Num \<bar>a\<bar>"
| "fabs PInf = PInf"
| "fabs NInf = PInf"
| "fabs NaN = NaN"

fun fadd :: "cfloat \<Rightarrow> cfloat \<Rightarrow> cfloat" where
  "fadd (Num a) (Num b) = Num (a + b)"
| "fadd NaN y = NaN"
| "fadd x NaN = NaN"
| "fadd PInf NInf = NaN"
| "fadd NInf PInf = NaN"
| "fadd PInf y = PInf"
| "fadd NInf y = NInf"
| "fadd x PInf = PInf"
| "fadd x NInf = NInf"

definition fsub :: "cfloat \<Rightarrow> cfloat \<Rightarrow> cfloat" where
  "fsub x y = fadd x (fneg y)"

fun fmul :: "cfloat \<Rightarrow> cfloat \<Rightarrow> cfloat" where
  "fmul (Num a) (Num b) = Num (a * b)"
| "fmul NaN y = NaN"
| "fmul x NaN = NaN"
| "fmul x y = by_sign (fsign x * fsign y)"

fun fdiv :: "cfloat \<Rightarrow> cfloat \<Rightarrow> cfloat" where
  "fdiv (Num a) (Num b) = (if b = 0 then by_sign (fsign (Num a)) else Num (a / b))"
| "fdiv NaN y = NaN"
| "fdiv x NaN = NaN"
| "fdiv (Num a) y = Num 0"
| "fdiv x (Num b) = by_sign (fsign x * (if b < 0 then -1 else 1))"
| "fdiv x y = NaN"

fun flt :: "cfloat \<Rightarrow> cfloat \<Rightarrow> bool" where
  "flt (Num a) (Num b) = (a < b)"
| "flt NaN y = False"
| "flt x NaN = False"
| "flt x NInf = False"
| "flt PInf y = False"
| "flt x y = True"

definition fgt :: "cfloat \<Rightarrow> cfloat \<Rightarrow> bool" where
  "fgt x y = flt y x"

fun fexp :: "cfloat \<Rightarrow> cfloat" where
  "fexp (Num a) = Num (exp a)"
| "fexp PInf = PInf"
| "fexp NInf = Num 0"
| "fexp NaN = NaN"

fun is_number :: "cfloat \<Rightarrow> bool" where
  "is_number (Num a) = True"
| "is_number x = False"

text \<open>\<open>size_t\<close> is the 64-bit unsigned integer; its arithmetic wraps around.\<close>

type_synonym size_t = "64 word"

section \<open>Rounding\<close>

text \<open>
  A number of an IEEE 754 binary format has a precision of \<open>p\<close> bits and an exponent from
  \<open>emin\<close> to \<open>emax\<close>: 24 bits and -126 to 127 for a \<open>float\<close>, 53 bits and -1022 to
  1023 for a \<open>double\<close>. An operation delivers its exact result rounded to the format of
  its type, each operation on its own (\<open>FLT_EVAL_METHOD\<close> is 0): to the nearest number of
  the format, to the one with an even last digit when two are equally near, and to an
  infinity when the rounded result is too large for the format.

  The exponent of a positive number \<open>x\<close> is the \<open>e\<close> with
  \<open>2\<^sup>e \<le> x < 2\<^sup>e\<^sup>+\<^sup>1\<close>. It is searched from 0,
  upwards when \<open>1 \<le> x\<close> and downwards otherwise, and kept from \<open>emin\<close>, the exponent
  of the subnormal numbers, to \<open>emax + 1\<close>.
\<close>

function float_exp_up :: "int \<Rightarrow> int \<Rightarrow> real \<Rightarrow> int" where
  "float_exp_up emax e x =
     (if e \<le> emax \<and> 2 powi (e + 1) \<le> x then float_exp_up emax (e + 1) x else e)"
  by pat_completeness auto
termination
  by (relation "measure (\<lambda>(emax, e, x). nat (emax + 1 - e))") auto

function float_exp_down :: "int \<Rightarrow> int \<Rightarrow> real \<Rightarrow> int" where
  "float_exp_down emin e x =
     (if emin < e \<and> x < 2 powi e then float_exp_down emin (e - 1) x else e)"
  by pat_completeness auto
termination
  by (relation "measure (\<lambda>(emin, e, x). nat (e - emin))") auto

declare float_exp_up.simps [simp del]

declare float_exp_down.simps [simp del]

definition float_exponent :: "int \<Rightarrow> int \<Rightarrow> real \<Rightarrow> int" where
  "float_exponent emin emax x =
     (if 1 \<le> x then float_exp_up emax 0 x else float_exp_down emin 0 x)"

text \<open>The nearest integer, the even one of two that are equally near.\<close>

definition round_even :: "real \<Rightarrow> int" where
  "round_even x =
     (if x - of_int \<lfloor>x\<rfloor> < 1 / 2 then \<lfloor>x\<rfloor>
      else if 1 / 2 < x - of_int \<lfloor>x\<rfloor> then \<lfloor>x\<rfloor> + 1
      else if even \<lfloor>x\<rfloor> then \<lfloor>x\<rfloor> else \<lfloor>x\<rfloor> + 1)"

text \<open>The nearest multiple of the unit \<open>u\<close>, which is the value of the last digit.\<close>

definition round_to_unit :: "real \<Rightarrow> real \<Rightarrow> real" where
  "round_to_unit u a = of_int (round_even (a / u)) * u"

text \<open>The rounded magnitude \<open>y\<close> with its sign, or the infinity when it is too large.\<close>

definition ieee_result :: "int \<Rightarrow> bool \<Rightarrow> real \<Rightarrow> cfloat" where
  "ieee_result emax negative y =
     (if 2 powi (emax + 1) \<le> y then (if negative then NInf else PInf)
      else Num (if negative then - y else y))"

definition ieee_round :: "nat \<Rightarrow> int \<Rightarrow> int \<Rightarrow> real \<Rightarrow> cfloat" where
  "ieee_round p emin emax x =
     (if x = 0 then Num 0
      else ieee_result emax (x < 0)
             (round_to_unit (2 powi (float_exponent emin emax \<bar>x\<bar> - int p + 1)) \<bar>x\<bar>))"

definition to_float :: "real \<Rightarrow> cfloat" where
  "to_float x = ieee_round 24 (- 126) 127 x"

definition to_double :: "real \<Rightarrow> cfloat" where
  "to_double x = ieee_round 53 (- 1022) 1023 x"

text \<open>
  The result of an operation as a \<open>float\<close> and as a \<open>double\<close>: a number is rounded, an
  infinity and a NaN stay.
\<close>

fun as_float :: "cfloat \<Rightarrow> cfloat" where
  "as_float (Num x) = to_float x"
| "as_float x = x"

fun as_double :: "cfloat \<Rightarrow> cfloat" where
  "as_double (Num x) = to_double x"
| "as_double x = x"

section \<open>The feed-forward network (nn.c)\<close>

subsection \<open>Activation functions\<close>

text \<open>
  The enumeration of \<open>nn.h\<close>; a C enum can hold a value that is none of its constants,
  which \<open>nn_activate\<close> answers with \<open>exit(-1)\<close>.
\<close>

datatype nn_activation =
  NN_ACTIVATION_SIGMOID | NN_ACTIVATION_FAST_SIGMOID | NN_ACTIVATION_RELU
  | NN_ACTIVATION_OTHER int

definition nn_sigmoid :: "cfloat \<Rightarrow> cfloat" where
  "nn_sigmoid input =
     (if flt input (Num (- 45)) then Num 0
      else if fgt input (Num 45) then Num 1
      else fdiv (Num 1) (fadd (Num 1) (fexp (fneg input))))"

definition nn_fast_sigmoid :: "cfloat \<Rightarrow> cfloat" where
  "nn_fast_sigmoid input = fdiv input (fadd (Num 1) (fabs input))"

definition nn_relu :: "cfloat \<Rightarrow> cfloat" where
  "nn_relu input = (if flt input (Num 0) then Num 0 else input)"

text \<open>
  \<open>nn_rand\<close> reads the process-wide random source; the value \<open>r\<close> that \<open>rand()\<close>
  returns is an argument here, and the constant \<open>RAND_MAX\<close> of the C library is the
  argument \<open>rand_max\<close>. \<open>None\<close> is the failed assertion.
\<close>

definition nn_rand :: "nat \<Rightarrow> cfloat \<Rightarrow> cfloat \<Rightarrow> nat \<Rightarrow> cfloat option" where
  "nn_rand rand_max start end' r =
     (if \<not> flt start end' then None
      else let range = fsub end' start
           in Some (fadd (fdiv (Num (real r)) (fdiv (Num (real rand_max)) range)) start))"

text \<open>\<open>None\<close> is the process ending in \<open>exit(-1)\<close>.\<close>

fun nn_activate :: "nn_activation \<Rightarrow> cfloat \<Rightarrow> cfloat option" where
  "nn_activate NN_ACTIVATION_SIGMOID input = Some (nn_sigmoid input)"
| "nn_activate NN_ACTIVATION_FAST_SIGMOID input = Some (nn_fast_sigmoid input)"
| "nn_activate NN_ACTIVATION_RELU input = Some (nn_relu input)"
| "nn_activate (NN_ACTIVATION_OTHER v) input = None"

subsection \<open>The network and the memory it lives in\<close>

text \<open>
  A network is one allocated block: the struct, and behind it the floats of the weights
  and of the neurons. A pointer to a float is the address of a block and an offset,
  counted in floats, into the data behind that block's struct. The memory is the list of
  the allocated blocks, a block's address its index; \<open>malloc\<close> appends a block.
  Reading or writing outside a block's data is undefined behaviour: \<open>None\<close>.
\<close>

type_synonym fptr = "nat \<times> nat"

record nn_ffnet =
  ninputs :: size_t
  nhiddens :: size_t
  noutputs :: size_t
  nhidden_layers :: size_t
  nweights :: size_t
  nneurons :: size_t
  hidden_activation :: nn_activation
  output_activation :: nn_activation
  bias :: cfloat
  weight :: fptr
  output' :: fptr
  extra :: "cfloat list"

type_synonym nn_memory = "nn_ffnet list"

definition ptr_add :: "fptr \<Rightarrow> nat \<Rightarrow> fptr" where
  "ptr_add p n = (fst p, snd p + n)"

definition load :: "nn_memory \<Rightarrow> fptr \<Rightarrow> cfloat option" where
  "load m p =
     (if fst p < length m \<and> snd p < length (extra (m ! fst p))
      then Some (extra (m ! fst p) ! snd p) else None)"

definition store :: "nn_memory \<Rightarrow> fptr \<Rightarrow> cfloat \<Rightarrow> nn_memory option" where
  "store m p v =
     (if fst p < length m \<and> snd p < length (extra (m ! fst p))
      then Some (m[fst p := (m ! fst p)\<lparr>extra := (extra (m ! fst p))[snd p := v]\<rparr>])
      else None)"

definition nn_ffnet_set_pointers :: "nat \<Rightarrow> nn_ffnet \<Rightarrow> nn_ffnet" where
  "nn_ffnet_set_pointers a net =
     (let net1 = net\<lparr>weight := (a, 0)\<rparr>
      in net1\<lparr>output' := ptr_add (weight net1) (unat (nweights net1))\<rparr>)"

text \<open>
  \<open>sizeof(float)\<close> is 4, and \<open>sizeof(struct nn_ffnet)\<close> is the argument
  \<open>sizeof_net\<close>: the header that declares the struct is not among the sources.
  \<open>malloc\<close> is taken to succeed; it is given \<open>sizeof_net + items_bytes\<close> bytes, a sum
  of \<open>size_t\<close> that wraps around. When the sum wraps, the block is smaller than the
  struct and the \<open>items_bytes\<close> bytes of data that \<open>memset\<close> zeroes behind it: the
  writes end outside the block, which is undefined behaviour. \<open>None\<close> is that, or a
  failed assertion. Otherwise the block holds the struct and \<open>items_bytes\<close> bytes of
  data, all zero. The result is the memory with the new block, and the block's address.
\<close>

definition nn_ffnet_create ::
  "size_t \<Rightarrow> nn_memory \<Rightarrow> size_t \<Rightarrow> size_t \<Rightarrow> size_t \<Rightarrow> size_t
   \<Rightarrow> (nn_memory \<times> nat) option" where
  "nn_ffnet_create sizeof_net m input_count hidden_count output_count hidden_layer_count =
     (if \<not> 0 < input_count then None
      else if \<not> 0 < output_count then None
      else if (0 < hidden_count) \<noteq> (0 < hidden_layer_count) then None
      else
        let hidden_weights =
              (if 0 < hidden_layer_count
               then (input_count + 1) * hidden_count
                    + (hidden_layer_count - 1) * (hidden_count + 1) * hidden_count
               else 0);
            output_weights =
              (if 0 < hidden_layer_count then hidden_count + 1 else input_count + 1)
              * output_count;
            total_weights = hidden_weights + output_weights;
            total_neurons = input_count + hidden_count * hidden_layer_count + output_count;
            total_items = total_weights + total_neurons;
            items_bytes = 4 * total_items;
            bytes = sizeof_net + items_bytes;
            net = \<lparr>ninputs = input_count, nhiddens = hidden_count,
                   noutputs = output_count, nhidden_layers = hidden_layer_count,
                   nweights = total_weights, nneurons = total_neurons,
                   hidden_activation = NN_ACTIVATION_SIGMOID,
                   output_activation = NN_ACTIVATION_SIGMOID,
                   bias = Num (- 1), weight = (0, 0), output' = (0, 0),
                   extra = replicate (unat items_bytes div 4) (Num 0)\<rparr>
        in if unat bytes < unat sizeof_net + unat items_bytes then None
           else Some (m @ [nn_ffnet_set_pointers (length m) net], length m))"

text \<open>
  \<open>bytes\<close> is a sum of \<open>size_t\<close> and wraps around; the assertion
  \<open>bytes > sizeof(struct nn_ffnet)\<close> fails when it has wrapped and when the network has
  no data. \<open>memcpy\<close> copies the first \<open>bytes\<close> bytes of the original's block, which
  holds the struct and four bytes for each of its floats: the struct, with its two
  pointers, and the data behind it; the pointers of the copy then still point into the
  block of the original, until \<open>nn_ffnet_set_pointers\<close> sets them. \<open>None\<close>: the
  address is not a network's, the assertion fails, or \<open>memcpy\<close> reads behind the end of
  the original's block.
\<close>

definition nn_ffnet_copy :: "size_t \<Rightarrow> nn_memory \<Rightarrow> nat \<Rightarrow> (nn_memory \<times> nat) option" where
  "nn_ffnet_copy sizeof_net m a =
     (if \<not> a < length m then None
      else
        let net = m ! a;
            extra_items = nweights net + nneurons net;
            bytes = sizeof_net + 4 * extra_items
        in if \<not> sizeof_net < bytes then None
           else if unat sizeof_net + 4 * length (extra net) < unat bytes then None
           else
             let new = net\<lparr>extra := take ((unat bytes - unat sizeof_net) div 4) (extra net)\<rparr>
             in Some (m @ [nn_ffnet_set_pointers (length m) new], length m))"

text \<open>
  The loop of \<open>nn_ffnet_randomize\<close>: \<open>i\<close> is the loop counter, the third argument from
  the right the number of rounds left, and \<open>rnd k\<close> the value of the \<open>k\<close>-th call of
  \<open>rand()\<close>.
\<close>

fun randomize_loop ::
  "nat \<Rightarrow> (nat \<Rightarrow> nat) \<Rightarrow> fptr \<Rightarrow> nat \<Rightarrow> nat \<Rightarrow> nn_memory \<Rightarrow> nn_memory option" where
  "randomize_loop rand_max rnd w i 0 m = Some m"
| "randomize_loop rand_max rnd w i (Suc n) m =
     (case nn_rand rand_max (Num (- (1 / 2))) (Num (1 / 2)) (rnd i) of
        None \<Rightarrow> None
      | Some v \<Rightarrow>
          (case store m (ptr_add w i) v of
             None \<Rightarrow> None
           | Some m' \<Rightarrow> randomize_loop rand_max rnd w (Suc i) n m'))"

text \<open>
  The counter of the loop is an \<open>int\<close>: with more than \<open>INT_MAX\<close> weights it overflows,
  which is undefined behaviour.
\<close>

definition nn_ffnet_randomize ::
  "nat \<Rightarrow> (nat \<Rightarrow> nat) \<Rightarrow> nn_memory \<Rightarrow> nat \<Rightarrow> nn_memory option" where
  "nn_ffnet_randomize rand_max rnd m a =
     (if \<not> a < length m then None
      else if 2147483647 < unat (nweights (m ! a)) then None
      else randomize_loop rand_max rnd (weight (m ! a)) 0 (unat (nweights (m ! a))) m)"

definition nn_ffnet_set_activations ::
  "nn_memory \<Rightarrow> nat \<Rightarrow> nn_activation \<Rightarrow> nn_activation \<Rightarrow> nn_memory option" where
  "nn_ffnet_set_activations m a hidden out =
     (if \<not> a < length m then None
      else Some (m[a := (m ! a)\<lparr>hidden_activation := hidden, output_activation := out\<rparr>]))"

definition nn_ffnet_set_bias :: "nn_memory \<Rightarrow> nat \<Rightarrow> cfloat \<Rightarrow> nn_memory option" where
  "nn_ffnet_set_bias m a b =
     (if \<not> a < length m then None else Some (m[a := (m ! a)\<lparr>bias := b\<rparr>]))"

subsection \<open>Running the network\<close>

text \<open>
  \<open>memcpy(dst, src, bytes)\<close> from the caller's array \<open>src\<close> of floats into the data of a
  block. Reading behind the end of \<open>src\<close>, or writing behind the end of the block's data,
  is undefined behaviour.
\<close>

definition memcpy_floats :: "nn_memory \<Rightarrow> fptr \<Rightarrow> cfloat list \<Rightarrow> size_t \<Rightarrow> nn_memory option" where
  "memcpy_floats m dst src bytes =
     (let n = unat bytes div 4
      in if length src < n then None
         else if \<not> (fst dst < length m \<and> snd dst + n \<le> length (extra (m ! fst dst))) then None
         else Some (m[fst dst := (m ! fst dst)
                \<lparr>extra := take (snd dst) (extra (m ! fst dst)) @ take n src
                          @ drop (snd dst + n) (extra (m ! fst dst))\<rparr>]))"

text \<open>
  The innermost loop, \<open>sum += *weight++ * input[k]\<close>: \<open>k\<close> is its counter and the next
  argument the number of rounds left; \<open>acc\<close> is the variable \<open>sum\<close>. It returns the moved
  weight pointer and the sum.
\<close>

fun sum_loop ::
  "nn_memory \<Rightarrow> fptr \<Rightarrow> nat \<Rightarrow> nat \<Rightarrow> fptr \<Rightarrow> cfloat \<Rightarrow> (fptr \<times> cfloat) option" where
  "sum_loop m input k 0 w acc = Some (w, acc)"
| "sum_loop m input k (Suc n) w acc =
     (case load m w of
        None \<Rightarrow> None
      | Some wv \<Rightarrow>
          (case load m (ptr_add input k) of
             None \<Rightarrow> None
           | Some x \<Rightarrow> sum_loop m input (Suc k) n (ptr_add w 1) (fadd acc (fmul wv x))))"

text \<open>
  The loop over the neurons of one layer, the same for a hidden layer and for the output
  layer but for the activation it reads from the struct (\<open>act\<close> is that field). The
  network is at address \<open>a\<close>, each neuron has \<open>nw\<close> inputs, read from \<open>input\<close>; the
  argument after \<open>input\<close> is the number of rounds left.
\<close>

fun neuron_loop ::
  "nat \<Rightarrow> (nn_ffnet \<Rightarrow> nn_activation) \<Rightarrow> nat \<Rightarrow> fptr \<Rightarrow> nat \<Rightarrow> nn_memory \<Rightarrow> fptr \<Rightarrow> fptr
   \<Rightarrow> (nn_memory \<times> fptr \<times> fptr) option" where
  "neuron_loop a act nw input 0 m w out = Some (m, w, out)"
| "neuron_loop a act nw input (Suc n) m w out =
     (case load m w of
        None \<Rightarrow> None
      | Some wv \<Rightarrow>
          (case sum_loop m input 0 nw (ptr_add w 1) (fmul wv (bias (m ! a))) of
             None \<Rightarrow> None
           | Some (w', acc) \<Rightarrow>
               (case nn_activate (act (m ! a)) acc of
                  None \<Rightarrow> None
                | Some v \<Rightarrow>
                    (case store m out v of
                       None \<Rightarrow> None
                     | Some m' \<Rightarrow> neuron_loop a act nw input n m' w' (ptr_add out 1)))))"

text \<open>The loop over the hidden layers: \<open>i\<close> is its counter, then the rounds left.\<close>

fun layer_loop ::
  "nat \<Rightarrow> nat \<Rightarrow> nat \<Rightarrow> nn_memory \<Rightarrow> fptr \<Rightarrow> fptr \<Rightarrow> fptr
   \<Rightarrow> (nn_memory \<times> fptr \<times> fptr \<times> fptr) option" where
  "layer_loop a i 0 m input w out = Some (m, input, w, out)"
| "layer_loop a i (Suc n) m input w out =
     (let nw = (if i = 0 then unat (ninputs (m ! a)) else unat (nhiddens (m ! a)))
      in case neuron_loop a hidden_activation nw input (unat (nhiddens (m ! a))) m w out of
           None \<Rightarrow> None
         | Some (m', w', out') \<Rightarrow> layer_loop a (Suc i) n m' (ptr_add input nw) w' out')"

text \<open>
  \<open>nn_ffnet_run\<close> up to its two final assertions: the memory after the run, the pointer
  it returns, and where the weight pointer and the output pointer stand at the end.
\<close>

definition run_layers ::
  "nn_memory \<Rightarrow> nat \<Rightarrow> cfloat list \<Rightarrow> (nn_memory \<times> fptr \<times> fptr \<times> fptr) option" where
  "run_layers m a inputs =
     (if \<not> a < length m then None
      else
        case memcpy_floats m (output' (m ! a)) inputs (4 * ninputs (m ! a)) of
          None \<Rightarrow> None
        | Some m1 \<Rightarrow>
            (case layer_loop a 0 (unat (nhidden_layers (m1 ! a))) m1 (output' (m1 ! a))
                    (weight (m1 ! a)) (ptr_add (output' (m1 ! a)) (unat (ninputs (m1 ! a)))) of
               None \<Rightarrow> None
             | Some (m2, input, w, out) \<Rightarrow>
                 (let nw = (if nhidden_layers (m2 ! a) = 0 then unat (ninputs (m2 ! a))
                            else unat (nhiddens (m2 ! a)))
                  in case neuron_loop a output_activation nw input (unat (noutputs (m2 ! a)))
                            m2 w out of
                       None \<Rightarrow> None
                     | Some (m3, w', out') \<Rightarrow> Some (m3, out, w', out'))))"

text \<open>
  The difference of two pointers, compared with a \<open>size_t\<close> as C does: converted to
  \<open>size_t\<close>. Pointers into different blocks have no difference.
\<close>

definition ptr_diff_is :: "fptr \<Rightarrow> fptr \<Rightarrow> size_t \<Rightarrow> bool" where
  "ptr_diff_is p q n = (fst p = fst q \<and> (word_of_int (int (snd p) - int (snd q)) :: size_t) = n)"

definition nn_ffnet_run :: "nn_memory \<Rightarrow> nat \<Rightarrow> cfloat list \<Rightarrow> (nn_memory \<times> fptr) option" where
  "nn_ffnet_run m a inputs =
     (case run_layers m a inputs of
        None \<Rightarrow> None
      | Some (m', ret, w, out) \<Rightarrow>
          if \<not> ptr_diff_is w (weight (m' ! a)) (nweights (m' ! a)) then None
          else if \<not> ptr_diff_is out (output' (m' ! a)) (nneurons (m' ! a)) then None
          else Some (m', ret))"

text \<open>The \<open>n\<close> floats a pointer points to, as the caller of \<open>nn_ffnet_run\<close> reads them.\<close>

definition load_floats :: "nn_memory \<Rightarrow> fptr \<Rightarrow> nat \<Rightarrow> cfloat option list" where
  "load_floats m p n = map (\<lambda>i. load m (ptr_add p i)) [0..<n]"

text \<open>
  What \<open>nn_ffnet_set_pointers\<close> establishes for the network at address \<open>a\<close>: the weights
  start at the block's own data, the neurons right behind the weights, and the data holds
  one float for every weight and every neuron. The size of the data in bytes fits a
  \<open>size_t\<close>, as the size of every allocated object does.
\<close>

definition nn_ffnet_ok :: "nn_memory \<Rightarrow> nat \<Rightarrow> bool" where
  "nn_ffnet_ok m a =
     (a < length m \<and> weight (m ! a) = (a, 0)
      \<and> output' (m ! a) = (a, unat (nweights (m ! a)))
      \<and> length (extra (m ! a)) = unat (nweights (m ! a)) + unat (nneurons (m ! a))
      \<and> 4 * length (extra (m ! a)) < 2 ^ 64)"

text \<open>
  The block of a network holds the struct and four bytes for each float of its data.
  \<open>malloc\<close> was given the size of the block as a \<open>size_t\<close>, so the size fits one.
\<close>

definition block_fits :: "size_t \<Rightarrow> nn_ffnet \<Rightarrow> bool" where
  "block_fits sizeof_net net = (unat sizeof_net + 4 * length (extra net) < 2 ^ 64)"

text \<open>The network \<open>nn_ffnet_create(1, 0, 1, 0)\<close> returns, in an empty memory.\<close>

definition net_1_0_1_0 :: nn_ffnet where
  "net_1_0_1_0 =
     \<lparr>ninputs = 1, nhiddens = 0, noutputs = 1, nhidden_layers = 0, nweights = 2,
      nneurons = 2, hidden_activation = NN_ACTIVATION_SIGMOID,
      output_activation = NN_ACTIVATION_SIGMOID, bias = Num (- 1), weight = (0, 0),
      output' = (0, 2), extra = [Num 0, Num 0, Num 0, Num 0]\<rparr>"

subsection \<open>The run on one block\<close>

text \<open>
  When every pointer of a run points into the network's own block, the loops act on that
  block's data alone. The functions below are the loops of \<open>nn_ffnet_run\<close> once more, on
  the data \<open>e\<close> of one block, with offsets in place of pointers; the loops on the memory
  are shown to agree with them.
\<close>

definition with_extra :: "nn_memory \<Rightarrow> nat \<Rightarrow> cfloat list \<Rightarrow> nn_memory" where
  "with_extra m a e = m[a := (m ! a)\<lparr>extra := e\<rparr>]"

fun block_sum_loop ::
  "cfloat list \<Rightarrow> nat \<Rightarrow> nat \<Rightarrow> nat \<Rightarrow> nat \<Rightarrow> cfloat \<Rightarrow> (nat \<times> cfloat) option" where
  "block_sum_loop e io k 0 wo acc = Some (wo, acc)"
| "block_sum_loop e io k (Suc n) wo acc =
     (if wo < length e \<and> io + k < length e
      then block_sum_loop e io (Suc k) n (Suc wo) (fadd acc (fmul (e ! wo) (e ! (io + k))))
      else None)"

fun block_neuron_loop ::
  "cfloat \<Rightarrow> nn_activation \<Rightarrow> nat \<Rightarrow> nat \<Rightarrow> nat \<Rightarrow> cfloat list \<Rightarrow> nat \<Rightarrow> nat
   \<Rightarrow> (cfloat list \<times> nat \<times> nat) option" where
  "block_neuron_loop b act nw io 0 e wo oo = Some (e, wo, oo)"
| "block_neuron_loop b act nw io (Suc n) e wo oo =
     (if \<not> wo < length e then None
      else
        case block_sum_loop e io 0 nw (Suc wo) (fmul (e ! wo) b) of
          None \<Rightarrow> None
        | Some (wo', acc) \<Rightarrow>
            (case nn_activate act acc of
               None \<Rightarrow> None
             | Some v \<Rightarrow>
                 if \<not> oo < length e then None
                 else block_neuron_loop b act nw io n (e[oo := v]) wo' (Suc oo)))"

fun block_layer_loop ::
  "nn_ffnet \<Rightarrow> nat \<Rightarrow> nat \<Rightarrow> cfloat list \<Rightarrow> nat \<Rightarrow> nat \<Rightarrow> nat
   \<Rightarrow> (cfloat list \<times> nat \<times> nat \<times> nat) option" where
  "block_layer_loop net i 0 e io wo oo = Some (e, io, wo, oo)"
| "block_layer_loop net i (Suc n) e io wo oo =
     (let nw = (if i = 0 then unat (ninputs net) else unat (nhiddens net))
      in case block_neuron_loop (bias net) (hidden_activation net) nw io (unat (nhiddens net))
                e wo oo of
           None \<Rightarrow> None
         | Some (e', wo', oo') \<Rightarrow> block_layer_loop net (Suc i) n e' (io + nw) wo' oo')"

text \<open>
  The data after the run, the offset of the returned pointer, and the offsets at which the
  weight pointer and the output pointer end.
\<close>

definition block_run :: "nn_ffnet \<Rightarrow> cfloat list \<Rightarrow> (cfloat list \<times> nat \<times> nat \<times> nat) option" where
  "block_run net inputs =
     (let n = unat (4 * ninputs net) div 4; e = extra net; base = unat (nweights net)
      in if length inputs < n then None
         else if \<not> base + n \<le> length e then None
         else
           case block_layer_loop net 0 (unat (nhidden_layers net))
                  (take base e @ take n inputs @ drop (base + n) e)
                  base 0 (base + unat (ninputs net)) of
             None \<Rightarrow> None
           | Some (e2, io, wo, oo) \<Rightarrow>
               (let nw = (if nhidden_layers net = 0 then unat (ninputs net)
                          else unat (nhiddens net))
                in case block_neuron_loop (bias net) (output_activation net) nw io
                          (unat (noutputs net)) e2 wo oo of
                     None \<Rightarrow> None
                   | Some (e3, wo', oo') \<Rightarrow> Some (e3, oo, wo', oo')))"

text \<open>An activation selector that is one of the enumeration's constants.\<close>

fun recognised :: "nn_activation \<Rightarrow> bool" where
  "recognised (NN_ACTIVATION_OTHER v) = False"
| "recognised act = True"

text \<open>
  The counts of a network's struct agree with its topology: the assertions of
  \<open>nn_ffnet_create\<close> on the topology, and the number of weights and of neurons as
  \<open>nn_ffnet_create\<close> computes them, read as natural numbers.
\<close>

definition weight_count :: "nat \<Rightarrow> nat \<Rightarrow> nat \<Rightarrow> nat \<Rightarrow> nat" where
  "weight_count ic hc oc lc =
     (if 0 < lc then (ic + 1) * hc + (lc - 1) * (hc + 1) * hc + (hc + 1) * oc
      else (ic + 1) * oc)"

definition neuron_count :: "nat \<Rightarrow> nat \<Rightarrow> nat \<Rightarrow> nat \<Rightarrow> nat" where
  "neuron_count ic hc oc lc = ic + hc * lc + oc"

definition topology_ok :: "nn_ffnet \<Rightarrow> bool" where
  "topology_ok net =
     (0 < ninputs net \<and> 0 < noutputs net \<and> (0 < nhiddens net) = (0 < nhidden_layers net)
      \<and> unat (nweights net)
          = weight_count (unat (ninputs net)) (unat (nhiddens net)) (unat (noutputs net))
              (unat (nhidden_layers net))
      \<and> unat (nneurons net)
          = neuron_count (unat (ninputs net)) (unat (nhiddens net)) (unat (noutputs net))
              (unat (nhidden_layers net)))"

text \<open>
  What the caller of \<open>nn_ffnet_run\<close> reads: the \<open>n\<close> floats at the returned pointer;
  \<open>None\<close> when the run does not return.
\<close>

definition run_outputs :: "nn_memory \<Rightarrow> nat \<Rightarrow> cfloat list \<Rightarrow> nat \<Rightarrow> cfloat option list option" where
  "run_outputs m a inputs n =
     (case nn_ffnet_run m a inputs of
        None \<Rightarrow> None
      | Some (m', ret) \<Rightarrow> Some (load_floats m' ret n))"

text \<open>The same on the data of one block.\<close>

definition block_outputs :: "nn_ffnet \<Rightarrow> cfloat list \<Rightarrow> nat \<Rightarrow> cfloat option list option" where
  "block_outputs net inputs n =
     (case block_run net inputs of
        None \<Rightarrow> None
      | Some (e', r, wo, oo) \<Rightarrow>
          if (word_of_int (int wo) :: size_t) = nweights net
             \<and> (word_of_int (int oo - int (unat (nweights net))) :: size_t) = nneurons net
          then Some (map (\<lambda>i. if r + i < length e' then Some (e' ! (r + i)) else None) [0..<n])
          else None)"

section \<open>The population (population.c)\<close>

subsection \<open>Genomes, species and what population.c calls\<close>

text \<open>
  The headers and the files of the genome and of the species are not part of the sources
  at hand: only \<open>population.c\<close> is. Of a genome \<open>population.c\<close> itself reads and
  writes the fields \<open>fitness\<close> and \<open>time_alive\<close>, of a species it reads \<open>ngenomes\<close>,
  of the configuration the four fields below; the counters are taken as natural numbers.
  The rest of a genome is a value of a type \<open>'g\<close>, a species is a value of a type \<open>'s\<close>.
\<close>

record neat_config =
  population_size :: nat
  genome_minimum_ticks_alive :: nat
  genome_compatibility_treshold :: cfloat
  species_crossover_probability :: cfloat

record 'g neat_genome =
  fitness :: cfloat
  time_alive :: nat
  body :: 'g

text \<open>
  A pointer to a genome is an address, 0 the null pointer. The genome objects live in a
  memory of their own: the list of the cells ever allocated, a cell's address its index;
  cell 0 is never allocated and a freed cell is \<open>None\<close>. Reading or freeing through a
  pointer that points to no live genome is undefined behaviour.
\<close>

type_synonym gptr = nat

type_synonym 'g genome_memory = "'g neat_genome option list"

definition genome_at :: "'g genome_memory \<Rightarrow> gptr \<Rightarrow> 'g neat_genome option" where
  "genome_at h g = (if g < length h then h ! g else None)"

definition genome_alloc :: "'g genome_memory \<Rightarrow> 'g neat_genome \<Rightarrow> 'g genome_memory \<times> gptr" where
  "genome_alloc h x = (h @ [Some x], length h)"

definition genome_free :: "'g genome_memory \<Rightarrow> gptr \<Rightarrow> 'g genome_memory option" where
  "genome_free h g = (if genome_at h g = None then None else Some (h[g := None]))"

text \<open>
  The functions of the genome and of the species that \<open>population.c\<close> calls are
  arguments of the model: one record holds them, and every result about the population
  holds whatever they are. A function that takes a genome pointer and reads the genome
  gets the memory as well. \<open>neat_genome_create\<close> and \<open>neat_genome_copy\<close> give the
  contents of the new genome, which the model puts into a fresh cell.
\<close>

record ('g, 's) collaborators =
  neat_genome_create :: "neat_config \<Rightarrow> nat \<Rightarrow> 'g neat_genome"
  neat_genome_copy :: "'g neat_genome \<Rightarrow> 'g neat_genome"
  neat_genome_run :: "'g neat_genome \<Rightarrow> cfloat list \<Rightarrow> 'g neat_genome \<times> cfloat list"
  neat_genome_is_compatible :: "'g genome_memory \<Rightarrow> gptr \<Rightarrow> gptr \<Rightarrow> cfloat \<Rightarrow> bool"
  neat_species_create :: "neat_config \<Rightarrow> gptr \<Rightarrow> 's"
  neat_species_add_genome :: "'s \<Rightarrow> gptr \<Rightarrow> 's"
  neat_species_remove_genome :: "'s \<Rightarrow> gptr \<Rightarrow> 's"
  neat_species_get_representant :: "'s \<Rightarrow> gptr"
  neat_species_get_average_fitness :: "'g genome_memory \<Rightarrow> 's \<Rightarrow> cfloat"
  neat_species_select_genitor :: "'g genome_memory \<Rightarrow> 's \<Rightarrow> gptr"
  species_ngenomes :: "'s \<Rightarrow> nat"

text \<open>
  \<open>struct neat_pop\<close>. The array \<open>genomes\<close> with its length \<open>ngenomes\<close> is a list, and
  so is the array \<open>species\<close> with its length \<open>nspecies\<close>; \<open>genome_mem\<close> is the memory
  of the genome objects.
\<close>

record ('g, 's) neat_pop =
  solved :: bool
  conf :: neat_config
  innovation :: nat
  genomes :: "gptr list"
  species :: "'s list"
  genome_mem :: "'g genome_memory"

definition ngenomes :: "('g, 's) neat_pop \<Rightarrow> nat" where
  "ngenomes p = length (genomes p)"

definition nspecies :: "('g, 's) neat_pop \<Rightarrow> nat" where
  "nspecies p = length (species p)"

text \<open>\<open>FLT_MAX\<close> of \<open>float.h\<close>, the largest IEEE single-precision number.\<close>

definition FLT_MAX :: cfloat where
  "FLT_MAX = Num 340282346638528859811704183484516925440"

subsection \<open>Creation\<close>

text \<open>The loop of \<open>neat_reset_genomes\<close>: \<open>i\<close> is its counter, then the rounds left.\<close>

fun reset_genomes_loop ::
  "('g, 's) collaborators \<Rightarrow> nat \<Rightarrow> nat \<Rightarrow> ('g, 's) neat_pop \<Rightarrow> ('g, 's) neat_pop option" where
  "reset_genomes_loop K i 0 p = Some p"
| "reset_genomes_loop K i (Suc n) p =
     (case genome_at (genome_mem p) (genomes p ! 0) of
        None \<Rightarrow> None
      | Some g \<Rightarrow>
          (let (h, new) = genome_alloc (genome_mem p) (neat_genome_copy K g)
           in reset_genomes_loop K (Suc i) n
                (p\<lparr>genomes := (genomes p)[i := new], genome_mem := h\<rparr>)))"

text \<open>\<open>None\<close>: the array has no slot 0 to write to.\<close>

definition neat_reset_genomes :: "('g, 's) collaborators \<Rightarrow> ('g, 's) neat_pop \<Rightarrow> ('g, 's) neat_pop option" where
  "neat_reset_genomes K p =
     (if ngenomes p = 0 then None
      else
        let (h, new) = genome_alloc (genome_mem p) (neat_genome_create K (conf p) (innovation p));
            p1 = p\<lparr>innovation := innovation p + 1, genomes := (genomes p)[0 := new],
                   genome_mem := h\<rparr>
        in reset_genomes_loop K 1 (ngenomes p1 - 1) p1)"

text \<open>\<open>None\<close>: the asserted \<open>src\<close> is null or is the genome to replace, or a pointer is wild.\<close>

definition neat_replace_genome ::
  "('g, 's) collaborators \<Rightarrow> ('g, 's) neat_pop \<Rightarrow> nat \<Rightarrow> gptr \<Rightarrow> ('g, 's) neat_pop option" where
  "neat_replace_genome K p dest src =
     (if src = 0 then None
      else if \<not> dest < ngenomes p then None
      else if genomes p ! dest = src then None
      else
        case genome_free (genome_mem p) (genomes p ! dest) of
          None \<Rightarrow> None
        | Some h1 \<Rightarrow>
            (case genome_at h1 src of
               None \<Rightarrow> None
             | Some g \<Rightarrow>
                 (let (h2, new) = genome_alloc h1 (neat_genome_copy K g)
                  in Some (p\<lparr>genomes := (genomes p)[dest := new], genome_mem := h2\<rparr>))))"

text \<open>The population with the new species appended; the new species is its last.\<close>

definition neat_create_new_species ::
  "('g, 's) collaborators \<Rightarrow> ('g, 's) neat_pop \<Rightarrow> gptr \<Rightarrow> ('g, 's) neat_pop" where
  "neat_create_new_species K p base =
     p\<lparr>species := species p @ [neat_species_create K (conf p) base]\<rparr>"

text \<open>
  \<open>calloc\<close> zeroes the population and \<open>malloc\<close> gives the array of \<open>population_size\<close>
  genome pointers, whose slots hold nothing yet: here null pointers. The memory of the
  genomes starts with the cell of the null pointer alone.
\<close>

definition neat_create :: "('g, 's) collaborators \<Rightarrow> neat_config \<Rightarrow> ('g, 's) neat_pop option" where
  "neat_create K config =
     (if \<not> 0 < population_size config then None
      else
        let p = \<lparr>solved = False, conf = config, innovation = 1,
                 genomes = replicate (population_size config) 0, species = [],
                 genome_mem = [None]\<rparr>
        in case neat_reset_genomes K p of
             None \<Rightarrow> None
           | Some p1 \<Rightarrow> Some (neat_create_new_species K (p1\<lparr>species := []\<rparr>) (genomes p1 ! 0)))"

subsection \<open>The epoch\<close>

text \<open>
  The loop of \<open>neat_find_worst_fitness\<close>: \<open>i\<close> is its counter, then the rounds left,
  then \<open>found_worst\<close>, \<open>*worst_genome\<close> and \<open>worst_fitness\<close>.
\<close>

fun find_worst_loop ::
  "('g, 's) neat_pop \<Rightarrow> nat \<Rightarrow> nat \<Rightarrow> bool \<times> nat \<times> cfloat \<Rightarrow> (bool \<times> nat \<times> cfloat) option" where
  "find_worst_loop p i 0 st = Some st"
| "find_worst_loop p i (Suc n) (found_worst, worst_genome, worst_fitness) =
     (if \<not> i < length (genomes p) then None
      else
        case genome_at (genome_mem p) (genomes p ! i) of
          None \<Rightarrow> None
        | Some genome \<Rightarrow>
            if flt (fitness genome) worst_fitness
               \<and> genome_minimum_ticks_alive (conf p) < time_alive genome
            then find_worst_loop p (Suc i) n (True, i, fitness genome)
            else find_worst_loop p (Suc i) n (found_worst, worst_genome, worst_fitness))"

text \<open>
  The result is what the function returns and what \<open>*worst_genome\<close> holds afterwards;
  the argument \<open>worst_genome\<close> is what it held before.
\<close>

definition neat_find_worst_fitness :: "('g, 's) neat_pop \<Rightarrow> nat \<Rightarrow> (bool \<times> nat) option" where
  "neat_find_worst_fitness p worst_genome =
     (case find_worst_loop p 0 (ngenomes p) (False, worst_genome, FLT_MAX) of
        None \<Rightarrow> None
      | Some (found_worst, worst, worst_fitness) \<Rightarrow> Some (found_worst, worst))"

text \<open>
  \<open>total_avg\<close> is a \<open>float\<close>, so every \<open>+=\<close> rounds to \<open>float\<close>. The divisor is
  \<open>nspecies\<close> converted to \<open>double\<close>, so the division is one of \<open>double\<close>; the
  assignment converts its result to \<open>float\<close>.
\<close>

definition neat_get_species_fitness_average :: "('g, 's) collaborators \<Rightarrow> ('g, 's) neat_pop \<Rightarrow> cfloat" where
  "neat_get_species_fitness_average K p =
     as_float (as_double
       (fdiv (foldl (\<lambda>total_avg s. as_float (fadd total_avg
                       (neat_species_get_average_fitness K (genome_mem p) s)))
                (Num 0) (species p))
          (to_double (real (nspecies p)))))"

text \<open>
  The loop of \<open>neat_speciate_genome\<close>: \<open>i\<close> is its counter, then the rounds left. It
  gives the population after the \<open>return\<close> inside the loop, or \<open>None\<close> when the loop ends
  without one.
\<close>

fun speciate_loop ::
  "('g, 's) collaborators \<Rightarrow> ('g, 's) neat_pop \<Rightarrow> gptr \<Rightarrow> nat \<Rightarrow> nat \<Rightarrow> ('g, 's) neat_pop option" where
  "speciate_loop K p genome i 0 = None"
| "speciate_loop K p genome i (Suc n) =
     (if neat_genome_is_compatible K (genome_mem p) genome
           (neat_species_get_representant K (species p ! i))
           (genome_compatibility_treshold (conf p))
      then Some (p\<lparr>species := (species p)[i := neat_species_add_genome K (species p ! i) genome]\<rparr>)
      else speciate_loop K p genome (Suc i) n)"

text \<open>\<open>None\<close>: \<open>genome_id\<close> is no index of the array.\<close>

definition neat_speciate_genome ::
  "('g, 's) collaborators \<Rightarrow> ('g, 's) neat_pop \<Rightarrow> nat \<Rightarrow> ('g, 's) neat_pop option" where
  "neat_speciate_genome K p genome_id =
     (if \<not> genome_id < ngenomes p then None
      else
        let genome = genomes p ! genome_id
        in case speciate_loop K p genome 0 (nspecies p) of
             Some p' \<Rightarrow> Some p'
           | None \<Rightarrow>
               (let p1 = neat_create_new_species K p 0;
                    new = last (species p1)
                in Some (p1\<lparr>species := butlast (species p1)
                                @ [neat_species_add_genome K new genome]\<rparr>)))"

text \<open>
  The expression \<open>(float)rand() / (float)RAND_MAX\<close>, which
  \<open>neat_select_reproduction_species\<close> evaluates twice: \<open>r\<close> is the value \<open>rand()\<close>
  returns, and the constant \<open>RAND_MAX\<close> of the C library is the argument \<open>rand_max\<close>.
  Both are of type \<open>int\<close> and are converted to \<open>float\<close>, which rounds them.
\<close>

definition rand_fraction :: "nat \<Rightarrow> nat \<Rightarrow> cfloat" where
  "rand_fraction rand_max r = as_float (fdiv (to_float (real r)) (to_float (real rand_max)))"

text \<open>
  What the loop of \<open>neat_select_reproduction_species\<close> does once a species \<open>s\<close> is
  selected: \<open>r\<close> is the value \<open>rand()\<close> returns there.
\<close>

definition reproduce ::
  "('g, 's) collaborators \<Rightarrow> nat \<Rightarrow> nat \<Rightarrow> ('g, 's) neat_pop \<Rightarrow> nat \<Rightarrow> 's
   \<Rightarrow> ('g, 's) neat_pop option" where
  "reproduce K rand_max r p worst_genome s =
     (let random = rand_fraction rand_max r
      in case (if flt random (species_crossover_probability (conf p)) then Some p
               else neat_replace_genome K p worst_genome
                      (neat_species_select_genitor K (genome_mem p) s)) of
           None \<Rightarrow> None
         | Some p' \<Rightarrow> neat_speciate_genome K p' worst_genome)"

text \<open>
  The loop of \<open>neat_select_reproduction_species\<close>: \<open>i\<close> is its counter, then the
  rounds left, then \<open>selection_random\<close>. \<open>r2\<close> is the value of the second call of
  \<open>rand()\<close>.
\<close>

fun select_loop ::
  "('g, 's) collaborators \<Rightarrow> nat \<Rightarrow> nat \<Rightarrow> ('g, 's) neat_pop \<Rightarrow> nat \<Rightarrow> cfloat \<Rightarrow> nat \<Rightarrow> nat
   \<Rightarrow> cfloat \<Rightarrow> ('g, 's) neat_pop option" where
  "select_loop K rand_max r2 p worst_genome total_avg i 0 selection_random = Some p"
| "select_loop K rand_max r2 p worst_genome total_avg i (Suc n) selection_random =
     (let s = species p ! i
      in if species_ngenomes K s = 0
         then select_loop K rand_max r2 p worst_genome total_avg (Suc i) n selection_random
         else
           let avg = neat_species_get_average_fitness K (genome_mem p) s;
               selection_prob = as_float (fdiv avg total_avg)
           in if fgt selection_random selection_prob
              then select_loop K rand_max r2 p worst_genome total_avg (Suc i) n
                     (as_float (fsub selection_random selection_prob))
              else reproduce K rand_max r2 p worst_genome s)"

text \<open>\<open>r1\<close> and \<open>r2\<close> are the values of the first and of the second call of \<open>rand()\<close>.\<close>

definition neat_select_reproduction_species ::
  "('g, 's) collaborators \<Rightarrow> nat \<Rightarrow> nat \<Rightarrow> nat \<Rightarrow> ('g, 's) neat_pop \<Rightarrow> nat
   \<Rightarrow> ('g, 's) neat_pop option" where
  "neat_select_reproduction_species K rand_max r1 r2 p worst_genome =
     (let total_avg = neat_get_species_fitness_average K p;
          selection_random = rand_fraction rand_max r1
      in select_loop K rand_max r2 p worst_genome total_avg 0 (nspecies p) selection_random)"

subsection \<open>The interface\<close>

text \<open>\<open>None\<close> is a failed assertion or undefined behaviour.\<close>

definition neat_run ::
  "('g, 's) collaborators \<Rightarrow> ('g, 's) neat_pop \<Rightarrow> nat \<Rightarrow> cfloat list
   \<Rightarrow> (('g, 's) neat_pop \<times> cfloat list) option" where
  "neat_run K p genome_id inputs =
     (if \<not> genome_id < ngenomes p then None
      else
        case genome_at (genome_mem p) (genomes p ! genome_id) of
          None \<Rightarrow> None
        | Some g \<Rightarrow>
            (let (g', outputs) = neat_genome_run K g inputs
             in Some (p\<lparr>genome_mem := (genome_mem p)[genomes p ! genome_id := Some g']\<rparr>,
                      outputs)))"

text \<open>
  The loop of \<open>neat_epoch\<close> that removes the worst genome from every species: the
  population after it.
\<close>

definition detach_worst ::
  "('g, 's) collaborators \<Rightarrow> ('g, 's) neat_pop \<Rightarrow> nat \<Rightarrow> ('g, 's) neat_pop" where
  "detach_worst K p worst_genome =
     p\<lparr>species := map (\<lambda>s. neat_species_remove_genome K s (genomes p ! worst_genome))
                      (species p)\<rparr>"

definition neat_epoch ::
  "('g, 's) collaborators \<Rightarrow> nat \<Rightarrow> nat \<Rightarrow> nat \<Rightarrow> ('g, 's) neat_pop \<Rightarrow> ('g, 's) neat_pop option" where
  "neat_epoch K rand_max r1 r2 p =
     (case neat_find_worst_fitness p 0 of
        None \<Rightarrow> None
      | Some (found, worst_genome) \<Rightarrow>
          if \<not> found then Some p
          else neat_select_reproduction_species K rand_max r1 r2
                 (detach_worst K p worst_genome) worst_genome)"

definition neat_set_fitness ::
  "('g, 's) neat_pop \<Rightarrow> nat \<Rightarrow> cfloat \<Rightarrow> ('g, 's) neat_pop option" where
  "neat_set_fitness p genome_id f =
     (if \<not> genome_id < ngenomes p then None
      else
        case genome_at (genome_mem p) (genomes p ! genome_id) of
          None \<Rightarrow> None
        | Some g \<Rightarrow>
            Some (p\<lparr>genome_mem := (genome_mem p)[genomes p ! genome_id := Some (g\<lparr>fitness := f\<rparr>)]\<rparr>))"

definition neat_increase_time_alive :: "('g, 's) neat_pop \<Rightarrow> nat \<Rightarrow> ('g, 's) neat_pop option" where
  "neat_increase_time_alive p genome_id =
     (if \<not> genome_id < ngenomes p then None
      else
        case genome_at (genome_mem p) (genomes p ! genome_id) of
          None \<Rightarrow> None
        | Some g \<Rightarrow>
            Some (p\<lparr>genome_mem := (genome_mem p)
                       [genomes p ! genome_id := Some (g\<lparr>time_alive := time_alive g + 1\<rparr>)]\<rparr>))"

subsection \<open>A species and a genome to run the population on\<close>

text \<open>
  Modelled from the spec: the species of \<open>species.c\<close>, which is not among the sources.
  A species is an ordered collection of genome references and a representative, fixed at
  creation; created from a genome it contains that genome, created from the null pointer
  it is empty. Adding appends a reference, removing a reference that is absent changes
  nothing, the average fitness is the mean fitness of the members, and the genitor is a
  member (here the first).
\<close>

record neat_species =
  sp_genomes :: "gptr list"
  sp_representant :: gptr

definition spec_species_create :: "neat_config \<Rightarrow> gptr \<Rightarrow> neat_species" where
  "spec_species_create config base =
     \<lparr>sp_genomes = (if base = 0 then [] else [base]), sp_representant = base\<rparr>"

definition spec_species_add_genome :: "neat_species \<Rightarrow> gptr \<Rightarrow> neat_species" where
  "spec_species_add_genome s g = s\<lparr>sp_genomes := sp_genomes s @ [g]\<rparr>"

definition spec_species_remove_genome :: "neat_species \<Rightarrow> gptr \<Rightarrow> neat_species" where
  "spec_species_remove_genome s g = s\<lparr>sp_genomes := removeAll g (sp_genomes s)\<rparr>"

definition spec_species_get_average_fitness :: "'g genome_memory \<Rightarrow> neat_species \<Rightarrow> cfloat" where
  "spec_species_get_average_fitness h s =
     fdiv (foldl fadd (Num 0)
             (map (\<lambda>g. case genome_at h g of None \<Rightarrow> NaN | Some x \<Rightarrow> fitness x)
                (sp_genomes s)))
       (Num (real (length (sp_genomes s))))"

definition spec_species_select_genitor :: "'g genome_memory \<Rightarrow> neat_species \<Rightarrow> gptr" where
  "spec_species_select_genitor h s = (case sp_genomes s of [] \<Rightarrow> 0 | g # gs \<Rightarrow> g)"

text \<open>
  Modelled from the spec: the genome of \<open>genome.c\<close>, which is not among the sources, as
  far as a population needs one to run. A fresh genome has fitness 0 and age 0 and
  carries its innovation number; a copy is a deep clone; two genomes are compatible when
  their distance, here the difference of their innovation numbers, is at most the
  threshold, and no genome is compatible with a missing representative. The network of
  the genome is left out: a run gives no outputs.
\<close>

definition spec_genome_is_compatible :: "nat genome_memory \<Rightarrow> gptr \<Rightarrow> gptr \<Rightarrow> cfloat \<Rightarrow> bool" where
  "spec_genome_is_compatible h g r treshold =
     (case (genome_at h g, genome_at h r) of
        (Some x, Some y) \<Rightarrow> \<not> fgt (Num \<bar>real (body x) - real (body y)\<bar>) treshold
      | _ \<Rightarrow> False)"

definition spec_collaborators :: "(nat, neat_species) collaborators" where
  "spec_collaborators =
     \<lparr>neat_genome_create = (\<lambda>config i. \<lparr>fitness = Num 0, time_alive = 0, body = i\<rparr>),
      neat_genome_copy = (\<lambda>g. g),
      neat_genome_run = (\<lambda>g inputs. (g, [])),
      neat_genome_is_compatible = spec_genome_is_compatible,
      neat_species_create = spec_species_create,
      neat_species_add_genome = spec_species_add_genome,
      neat_species_remove_genome = spec_species_remove_genome,
      neat_species_get_representant = sp_representant,
      neat_species_get_average_fitness = spec_species_get_average_fitness,
      neat_species_select_genitor = spec_species_select_genitor,
      species_ngenomes = (\<lambda>s. length (sp_genomes s))\<rparr>"

subsection \<open>Notions for the results on the epoch\<close>

text \<open>
  A genome that \<open>neat_find_worst_fitness\<close> can pick: older than the configured minimum,
  and of a fitness below the initial \<open>worst_fitness\<close>, which is \<open>FLT_MAX\<close>.
\<close>

definition worst_candidate :: "neat_config \<Rightarrow> 'g neat_genome \<Rightarrow> bool" where
  "worst_candidate config g =
     (genome_minimum_ticks_alive config < time_alive g \<and> flt (fitness g) FLT_MAX)"

text \<open>
  What holds of \<open>found_worst\<close>, \<open>*worst_genome\<close> and \<open>worst_fitness\<close> when the loop of
  \<open>neat_find_worst_fitness\<close> has looked at the slots below \<open>i\<close>; \<open>g j\<close> is the genome
  of slot \<open>j\<close>.
\<close>

definition find_worst_inv ::
  "neat_config \<Rightarrow> (nat \<Rightarrow> 'g neat_genome) \<Rightarrow> nat \<Rightarrow> nat \<Rightarrow> bool \<times> nat \<times> cfloat \<Rightarrow> bool" where
  "find_worst_inv config g w0 i st =
     (case st of (found, w, wfit) \<Rightarrow>
        if found
        then w < i \<and> worst_candidate config (g w) \<and> wfit = fitness (g w)
             \<and> (\<forall>j<i. worst_candidate config (g j) \<longrightarrow> \<not> flt (fitness (g j)) wfit)
             \<and> (\<forall>j<w. worst_candidate config (g j) \<longrightarrow> flt wfit (fitness (g j)))
        else wfit = FLT_MAX \<and> (\<forall>j<i. \<not> worst_candidate config (g j)) \<and> w = w0)"

subsection \<open>Example populations\<close>

text \<open>
  Three genomes of fitness 2, 1 and 1, each one tick old, and the one species that
  \<open>neat_create\<close> made of the first genome.
\<close>

definition config_example :: neat_config where
  "config_example =
     \<lparr>population_size = 3, genome_minimum_ticks_alive = 0,
      genome_compatibility_treshold = Num 10, species_crossover_probability = Num (1 / 2)\<rparr>"

definition pop_example :: "(nat, neat_species) neat_pop" where
  "pop_example =
     \<lparr>solved = False, conf = config_example, innovation = 2, genomes = [1, 2, 3],
      species = [\<lparr>sp_genomes = [1], sp_representant = 1\<rparr>],
      genome_mem = [None, Some \<lparr>fitness = Num 2, time_alive = 1, body = 1\<rparr>,
                    Some \<lparr>fitness = Num 1, time_alive = 1, body = 1\<rparr>,
                    Some \<lparr>fitness = Num 1, time_alive = 1, body = 1\<rparr>]\<rparr>"

text \<open>The genome of slot \<open>j\<close> of \<open>pop_example\<close>.\<close>

definition genome_example :: "nat \<Rightarrow> nat neat_genome" where
  "genome_example j =
     (if j = 0 then \<lparr>fitness = Num 2, time_alive = 1, body = 1\<rparr>
      else \<lparr>fitness = Num 1, time_alive = 1, body = 1\<rparr>)"

text \<open>One genome, one tick old, of fitness \<open>FLT_MAX\<close>.\<close>

definition pop_flt_max :: "(nat, neat_species) neat_pop" where
  "pop_flt_max =
     \<lparr>solved = False, conf = config_example\<lparr>population_size := 1\<rparr>, innovation = 2,
      genomes = [1], species = [\<lparr>sp_genomes = [1], sp_representant = 1\<rparr>],
      genome_mem = [None, Some \<lparr>fitness = FLT_MAX, time_alive = 1, body = 1\<rparr>]\<rparr>"







text \<open>
  Where the loop of \<open>neat_select_reproduction_species\<close> stops: the index of the species
  it selects, or \<open>None\<close> when it ends without selecting one. The arguments are those of
  \<open>select_loop\<close>.
\<close>

fun selected_species ::
  "('g, 's) collaborators \<Rightarrow> ('g, 's) neat_pop \<Rightarrow> cfloat \<Rightarrow> nat \<Rightarrow> nat \<Rightarrow> cfloat \<Rightarrow> nat option" where
  "selected_species K p total_avg i 0 selection_random = None"
| "selected_species K p total_avg i (Suc n) selection_random =
     (let s = species p ! i
      in if species_ngenomes K s = 0
         then selected_species K p total_avg (Suc i) n selection_random
         else
           let avg = neat_species_get_average_fitness K (genome_mem p) s;
               selection_prob = as_float (fdiv avg total_avg)
           in if fgt selection_random selection_prob
              then selected_species K p total_avg (Suc i) n
                     (as_float (fsub selection_random selection_prob))
              else Some i)"

subsection \<open>The selection as the specification words it\<close>








section \<open>Rounding is monotone\<close>

lemma float_exp_up_spec:
  "e \<le> emax + 1 \<Longrightarrow> 2 powi e \<le> x \<Longrightarrow>
   e \<le> float_exp_up emax e x \<and> float_exp_up emax e x \<le> emax + 1
   \<and> 2 powi (float_exp_up emax e x) \<le> x
   \<and> (float_exp_up emax e x = emax + 1 \<or> x < 2 powi (float_exp_up emax e x + 1))"
proof (induction emax e x rule: float_exp_up.induct)
  case (1 emax e x)
  show ?case
  proof (cases "e \<le> emax \<and> 2 powi (e + 1) \<le> x")
    case True
    then have "float_exp_up emax e x = float_exp_up emax (e + 1) x"
      by (subst float_exp_up.simps) simp
    with 1(1) [OF True] True show ?thesis by auto
  next
    case False
    then have "float_exp_up emax e x = e"
      by (subst float_exp_up.simps) auto
    with False 1(2,3) show ?thesis by auto
  qed
qed

lemma float_exp_down_spec:
  "emin \<le> e \<Longrightarrow> x < 2 powi (e + 1) \<Longrightarrow>
   emin \<le> float_exp_down emin e x \<and> float_exp_down emin e x \<le> e
   \<and> x < 2 powi (float_exp_down emin e x + 1)
   \<and> (float_exp_down emin e x = emin \<or> 2 powi (float_exp_down emin e x) \<le> x)"
proof (induction emin e x rule: float_exp_down.induct)
  case (1 emin e x)
  show ?case
  proof (cases "emin < e \<and> x < 2 powi e")
    case True
    then have "float_exp_down emin e x = float_exp_down emin (e - 1) x"
      by (subst float_exp_down.simps) simp
    with 1(1) [OF True] True show ?thesis by auto
  next
    case False
    then have "float_exp_down emin e x = e"
      by (subst float_exp_down.simps) auto
    with False 1(2,3) show ?thesis by auto
  qed
qed

lemma float_exponent_spec:
  assumes "emin \<le> 0" and "0 \<le> emax"
  shows "emin \<le> float_exponent emin emax x \<and> float_exponent emin emax x \<le> emax + 1
         \<and> (float_exponent emin emax x = emin \<or> 2 powi (float_exponent emin emax x) \<le> x)
         \<and> (float_exponent emin emax x = emax + 1
              \<or> x < 2 powi (float_exponent emin emax x + 1))"
proof (cases "1 \<le> x")
  case True
  then have "2 powi 0 \<le> x" by simp
  from float_exp_up_spec [OF _ this, of emax] assms True show ?thesis
    by (auto simp: float_exponent_def)
next
  case False
  then have "x < 2 powi (0 + 1)" by simp
  from float_exp_down_spec [OF assms(1) this] assms False show ?thesis
    by (auto simp: float_exponent_def)
qed

lemma float_exponent_mono:
  assumes "emin \<le> 0" and "0 \<le> emax" and "x \<le> y"
  shows "float_exponent emin emax x \<le> float_exponent emin emax y"
proof (rule ccontr)
  let ?a = "float_exponent emin emax x" and ?b = "float_exponent emin emax y"
  assume "\<not> ?a \<le> ?b"
  then have l: "?b < ?a" by simp
  note sx = float_exponent_spec [OF assms(1,2), of x]
    and sy = float_exponent_spec [OF assms(1,2), of y]
  from l sy have "emin < ?a" by simp
  with sx have 1: "2 powi ?a \<le> x" by auto
  from l sx have "?b < emax + 1" by simp
  with sy have 2: "y < 2 powi (?b + 1)" by auto
  from l have "(2::real) powi (?b + 1) \<le> 2 powi ?a"
    by (intro power_int_increasing) simp_all
  with 1 2 assms(3) show False by simp
qed

lemma round_even_bounds: "\<lfloor>x\<rfloor> \<le> round_even x \<and> round_even x \<le> \<lfloor>x\<rfloor> + 1"
  by (simp add: round_even_def)

lemma round_even_of_int [simp]: "round_even (of_int n) = n"
  by (simp add: round_even_def)

lemma round_even_mono:
  assumes "x \<le> y"
  shows "round_even x \<le> round_even y"
proof (cases "\<lfloor>x\<rfloor> = \<lfloor>y\<rfloor>")
  case True
  with assms show ?thesis by (auto simp: round_even_def)
next
  case False
  with assms have "\<lfloor>x\<rfloor> < \<lfloor>y\<rfloor>"
    using floor_mono [OF assms] by simp
  with round_even_bounds [of x] round_even_bounds [of y] show ?thesis by simp
qed

lemma round_to_unit_mono:
  "0 < u \<Longrightarrow> a \<le> b \<Longrightarrow> round_to_unit u a \<le> round_to_unit u b"
  by (simp add: round_to_unit_def round_even_mono divide_right_mono)

lemma round_to_unit_fixed: "0 < u \<Longrightarrow> round_to_unit u (of_int n * u) = of_int n * u"
  by (simp add: round_to_unit_def)


lemma two_powi_split:
  "(2::real) powi (e + 1) = of_int (2 ^ p) * 2 powi (e - int p + 1)"
proof -
  have "(2::real) powi (e + 1) = 2 powi (int p + (e - int p + 1))" by simp
  also have "\<dots> = 2 powi (int p) * 2 powi (e - int p + 1)"
    by (rule power_int_add) simp
  finally show ?thesis by (simp add: power_int_of_nat)
qed

lemma two_powi_split':
  assumes "0 < p"
  shows "(2::real) powi e = of_int (2 ^ (p - 1)) * 2 powi (e - int p + 1)"
  using two_powi_split [of "e - 1" "p - 1"] assms by (simp add: of_nat_diff)

lemma round_magnitude_mono:
  assumes "emin \<le> 0" and "0 \<le> emax" and "0 < p" and "a \<le> b"
  shows "round_to_unit (2 powi (float_exponent emin emax a - int p + 1)) a
         \<le> round_to_unit (2 powi (float_exponent emin emax b - int p + 1)) b"
proof -
  let ?ea = "float_exponent emin emax a" and ?eb = "float_exponent emin emax b"
  let ?ua = "(2::real) powi (?ea - int p + 1)" and ?ub = "(2::real) powi (?eb - int p + 1)"
  have ua: "0 < ?ua" and ub: "0 < ?ub" by (simp_all add: zero_less_power_int)
  have le: "?ea \<le> ?eb" by (rule float_exponent_mono [OF assms(1,2,4)])
  note sa = float_exponent_spec [OF assms(1,2), of a]
    and sb = float_exponent_spec [OF assms(1,2), of b]
  show ?thesis
  proof (cases "?ea = ?eb")
    case True
    then show ?thesis using round_to_unit_mono [OF ub assms(4)] by simp
  next
    case False
    with le have l: "?ea < ?eb" by simp
    with sb have "?ea < emax + 1" by simp
    with sa have "a < 2 powi (?ea + 1)" by auto
    then have "a \<le> of_int (2 ^ p) * ?ua"
      using two_powi_split [of ?ea p] by simp
    from round_to_unit_mono [OF ua this]
    have 1: "round_to_unit ?ua a \<le> 2 powi (?ea + 1)"
      using two_powi_split [of ?ea p] by (simp only: round_to_unit_fixed [OF ua])
    from l sa have "emin < ?eb" by simp
    with sb have "2 powi ?eb \<le> b" by auto
    then have "of_int (2 ^ (p - 1)) * ?ub \<le> b"
      using two_powi_split' [OF assms(3), of ?eb] by simp
    from round_to_unit_mono [OF ub this]
    have 2: "2 powi ?eb \<le> round_to_unit ?ub b"
      using two_powi_split' [OF assms(3), of ?eb] by (simp only: round_to_unit_fixed [OF ub])
    from l have "(2::real) powi (?ea + 1) \<le> 2 powi ?eb"
      by (intro power_int_increasing) simp_all
    with 1 2 show ?thesis by simp
  qed
qed

lemma round_to_unit_nonneg: "0 < u \<Longrightarrow> 0 \<le> a \<Longrightarrow> 0 \<le> round_to_unit u a"
proof -
  assume u: "0 < u" and a: "0 \<le> a"
  then have "0 \<le> a / u" by simp
  then have "0 \<le> \<lfloor>a / u\<rfloor>" by simp
  with round_even_bounds [of "a / u"] have "0 \<le> round_even (a / u)" by linarith
  with u show ?thesis by (simp add: round_to_unit_def)
qed

lemma ieee_round_nonneg:
  assumes "0 \<le> x"
  shows "ieee_round p emin emax x = PInf \<or> (\<exists>y. ieee_round p emin emax x = Num y \<and> 0 \<le> y)"
proof (cases "x = 0")
  case True
  then show ?thesis by (simp add: ieee_round_def)
next
  case False
  have "0 \<le> round_to_unit (2 powi (float_exponent emin emax \<bar>x\<bar> - int p + 1)) \<bar>x\<bar>"
    by (intro round_to_unit_nonneg) (simp_all add: zero_less_power_int)
  with False assms show ?thesis
    by (simp add: ieee_round_def ieee_result_def)
qed

lemma ieee_round_mono:
  assumes "emin \<le> 0" and "0 \<le> emax" and "0 < p" and "0 \<le> x" and "x \<le> y"
    and "ieee_round p emin emax y = Num b"
  shows "\<exists>a. ieee_round p emin emax x = Num a \<and> 0 \<le> a \<and> a \<le> b"
proof (cases "x = 0")
  case True
  from assms(4,5) have "0 \<le> y" by simp
  from ieee_round_nonneg [OF this, of p emin emax] assms(6) True show ?thesis
    by (simp add: ieee_round_def)
next
  case False
  with assms(4,5) have x: "0 < x" and y: "0 < y" by simp_all
  let ?R = "\<lambda>a. round_to_unit (2 powi (float_exponent emin emax a - int p + 1)) a"
  have m: "?R x \<le> ?R y" by (rule round_magnitude_mono [OF assms(1,2,3,5)])
  from assms(6) y have b: "b = ?R y" and o: "\<not> 2 powi (emax + 1) \<le> ?R y"
    by (auto simp: ieee_round_def ieee_result_def split: if_splits)
  have n: "0 \<le> ?R x"
    using x by (intro round_to_unit_nonneg) (simp_all add: zero_less_power_int)
  from m o x have "ieee_round p emin emax x = Num (?R x)"
    by (simp add: ieee_round_def ieee_result_def)
  with m n b show ?thesis by simp
qed

lemmas float_eval = to_float_def to_double_def ieee_round_def ieee_result_def
  round_to_unit_def float_exponent_def float_exp_down.simps float_exp_up.simps round_even_def

lemma to_float_mono:
  "0 \<le> x \<Longrightarrow> x \<le> y \<Longrightarrow> to_float y = Num b \<Longrightarrow> \<exists>a. to_float x = Num a \<and> 0 \<le> a \<and> a \<le> b"
  unfolding to_float_def by (rule ieee_round_mono) simp_all


lemma to_float_1: "to_float 1 = Num 1"
  by (simp add: float_eval)

lemma to_float_int_max: "to_float 2147483647 = Num 2147483648"
  by (simp add: float_eval)



lemma rand_fraction_unit:
  assumes "0 < rand_max" and "rand_max \<le> 2147483647" and "r \<le> rand_max"
  shows "\<exists>x. rand_fraction rand_max r = Num x \<and> 0 \<le> x \<and> x \<le> 1"
proof -
  from assms(2) have "real rand_max \<le> 2147483647" by simp
  from to_float_mono [OF _ this to_float_int_max]
  obtain b where b: "to_float (real rand_max) = Num b" by auto
  from assms(1) have "1 \<le> real rand_max" by simp
  from to_float_mono [OF _ this b] to_float_1 have b1: "1 \<le> b" by simp
  from assms(3) have "real r \<le> real rand_max" by simp
  from to_float_mono [OF _ this b]
  obtain a where a: "to_float (real r) = Num a" and a0: "0 \<le> a" and ab: "a \<le> b" by auto
  from a0 ab b1 have q: "0 \<le> a / b" "a / b \<le> 1" by simp_all
  from to_float_mono [OF q to_float_1]
  obtain x where "to_float (a / b) = Num x" "0 \<le> x" "x \<le> 1" by auto
  with a b b1 show ?thesis by (simp add: rand_fraction_def)
qed

section \<open>Memory\<close>

lemma load_store:
  "store m p v = Some m' \<Longrightarrow> load m' q = (if q = p then Some v else load m q)"
  by (cases p; cases q) (auto simp: store_def load_def nth_list_update split: if_splits)

lemma store_length:
  "store m p v = Some m' \<Longrightarrow> length m' = length m"
  by (auto simp: store_def split: if_splits)

lemma store_extra_length:
  "store m p v = Some m' \<Longrightarrow> length (extra (m' ! b)) = length (extra (m ! b))"
  by (auto simp: store_def nth_list_update split: if_splits)

lemma store_Some:
  "fst p < length m \<Longrightarrow> snd p < length (extra (m ! fst p)) \<Longrightarrow> \<exists>m'. store m p v = Some m'"
  by (simp add: store_def)

lemma ptr_add_inj: "ptr_add w i = ptr_add w k \<longleftrightarrow> i = k"
  by (simp add: ptr_add_def)

section \<open>Random weights\<close>

lemma nn_rand_half:
  "0 < rand_max \<Longrightarrow>
   nn_rand rand_max (Num (- (1 / 2))) (Num (1 / 2)) r
   = Some (Num (real r / real rand_max - 1 / 2))"
  by (simp add: nn_rand_def fsub_def)

lemma randomize_loop_frame:
  "randomize_loop rand_max rnd w i n m = Some m' \<Longrightarrow>
   (\<forall>k. i \<le> k \<and> k < i + n \<longrightarrow> q \<noteq> ptr_add w k) \<Longrightarrow> load m' q = load m q"
proof (induction n arbitrary: i m)
  case 0
  then show ?case by simp
next
  case (Suc n)
  from Suc.prems(1) obtain v m1 where
    s: "store m (ptr_add w i) v = Some m1" and
    r: "randomize_loop rand_max rnd w (Suc i) n m1 = Some m'"
    by (auto split: option.splits)
  have "load m' q = load m1 q"
    using Suc.IH [OF r] Suc.prems(2) by simp
  moreover have "q \<noteq> ptr_add w i" using Suc.prems(2) by simp
  ultimately show ?case using load_store [OF s] by simp
qed

lemma randomize_loop_load:
  "randomize_loop rand_max rnd w i n m = Some m' \<Longrightarrow> i \<le> k \<Longrightarrow> k < i + n \<Longrightarrow>
   load m' (ptr_add w k) = nn_rand rand_max (Num (- (1 / 2))) (Num (1 / 2)) (rnd k)"
proof (induction n arbitrary: i m)
  case 0
  then show ?case by simp
next
  case (Suc n)
  from Suc.prems(1) obtain v m1 where
    v: "nn_rand rand_max (Num (- (1 / 2))) (Num (1 / 2)) (rnd i) = Some v" and
    s: "store m (ptr_add w i) v = Some m1" and
    r: "randomize_loop rand_max rnd w (Suc i) n m1 = Some m'"
    by (auto split: option.splits)
  show ?case
  proof (cases "k = i")
    case True
    have "load m' (ptr_add w i) = load m1 (ptr_add w i)"
      by (rule randomize_loop_frame [OF r]) (simp add: ptr_add_inj)
    then show ?thesis using load_store [OF s] v True by simp
  next
    case False
    then show ?thesis using Suc.IH [OF r] Suc.prems(2,3) by simp
  qed
qed

lemma randomize_loop_Some:
  "0 < rand_max \<Longrightarrow> fst w < length m \<Longrightarrow> snd w + i + n \<le> length (extra (m ! fst w)) \<Longrightarrow>
   \<exists>m'. randomize_loop rand_max rnd w i n m = Some m'"
proof (induction n arbitrary: i m)
  case 0
  then show ?case by simp
next
  case (Suc n)
  obtain m1 where
    s: "store m (ptr_add w i) (Num (real (rnd i) / real rand_max - 1 / 2)) = Some m1"
    using store_Some [of "ptr_add w i" m] Suc.prems by (auto simp: ptr_add_def)
  have "\<exists>m'. randomize_loop rand_max rnd w (Suc i) n m1 = Some m'"
    using Suc.prems store_length [OF s] store_extra_length [OF s, of "fst w"]
    by (intro Suc.IH) simp_all
  then show ?case using s Suc.prems(1) by (simp add: nn_rand_half)
qed

text \<open>
  C5, as amended. \<open>rand()\<close> returns a value from 0 up to and including \<open>RAND_MAX\<close>. On a
  network with at most \<open>INT_MAX\<close> weights \<open>nn_ffnet_randomize\<close> returns, and every weight
  is then a number \<open>w\<close> of the closed interval \<open>-0.5 \<le> w \<le> 0.5\<close>, whatever the random
  source returns.
\<close>

theorem nn_ffnet_randomize_closed_interval:
  assumes "0 < rand_max" and "\<forall>k. rnd k \<le> rand_max" and "nn_ffnet_ok m a"
    and "unat (nweights (m ! a)) \<le> 2147483647"
  shows "\<exists>m'. nn_ffnet_randomize rand_max rnd m a = Some m'
           \<and> (\<forall>i<unat (nweights (m ! a)).
                \<exists>w. load m' (ptr_add (weight (m ! a)) i) = Some (Num w)
                     \<and> - (1 / 2) \<le> w \<and> w \<le> 1 / 2)"
proof -
  let ?n = "unat (nweights (m ! a))"
  let ?w = "weight (m ! a)"
  from assms(3) have ok: "a < length m" "?w = (a, 0)" "?n \<le> length (extra (m ! a))"
    by (simp_all add: nn_ffnet_ok_def)
  then obtain m' where l: "randomize_loop rand_max rnd ?w 0 ?n m = Some m'"
    using randomize_loop_Some [of rand_max ?w m 0 ?n rnd] assms(1) by auto
  have r: "nn_ffnet_randomize rand_max rnd m a = Some m'"
    using l ok(1) assms(4) by (simp add: nn_ffnet_randomize_def)
  have "\<exists>w. load m' (ptr_add ?w i) = Some (Num w) \<and> - (1 / 2) \<le> w \<and> w \<le> 1 / 2"
    if "i < ?n" for i
  proof -
    have "load m' (ptr_add ?w i) = Some (Num (real (rnd i) / real rand_max - 1 / 2))"
      using randomize_loop_load [OF l, of i] that assms(1) by (simp add: nn_rand_half)
    moreover have "0 \<le> real (rnd i) / real rand_max"
      by simp
    then have "- (1 / 2) \<le> real (rnd i) / real rand_max - 1 / 2"
      by linarith
    moreover have "real (rnd i) / real rand_max \<le> 1"
      using assms(1,2) by (simp add: divide_le_eq_1)
    then have "real (rnd i) / real rand_max - 1 / 2 \<le> 1 / 2"
      by linarith
    ultimately show ?thesis by blast
  qed
  with r show ?thesis by blast
qed

theorem nn_ffnet_randomize_closed_interval_witness:
  "nn_ffnet_ok [net_1_0_1_0] 0
   \<and> (\<exists>m'. nn_ffnet_randomize 32767 (\<lambda>k. 5) [net_1_0_1_0] 0 = Some m'
        \<and> (\<exists>w. load m' (ptr_add (weight ([net_1_0_1_0] ! 0)) 1) = Some (Num w)
             \<and> - (1 / 2) \<le> w \<and> w \<le> 1 / 2))"
proof -
  have ok: "nn_ffnet_ok [net_1_0_1_0] 0"
    by (simp add: nn_ffnet_ok_def net_1_0_1_0_def)
  have n1: "(1::nat) < unat (nweights ([net_1_0_1_0] ! 0))"
    by (simp add: net_1_0_1_0_def)
  have n2: "unat (nweights ([net_1_0_1_0] ! 0)) \<le> 2147483647"
    by (simp add: net_1_0_1_0_def)
  have r: "\<forall>k::nat. (5::nat) \<le> 32767"
    by simp
  from nn_ffnet_randomize_closed_interval
    [of 32767 "\<lambda>k. 5" "[net_1_0_1_0]" 0, OF _ r ok n2]
  obtain m' where
    "nn_ffnet_randomize 32767 (\<lambda>k. 5) [net_1_0_1_0] 0 = Some m'"
    and "\<forall>i<unat (nweights ([net_1_0_1_0] ! 0)).
           \<exists>w. load m' (ptr_add (weight ([net_1_0_1_0] ! 0)) i) = Some (Num w)
                \<and> - (1 / 2) \<le> w \<and> w \<le> 1 / 2"
    by auto
  with n1 ok show ?thesis by blast
qed

text \<open>
  C5 as stated fails: when \<open>rand()\<close> returns \<open>RAND_MAX\<close> (here glibc's), the weight is
  0.5, which is not below 0.5.
\<close>

theorem nn_ffnet_randomize_half_open_counterexample:
  "nn_ffnet_create 80 [] 1 0 1 0 = Some ([net_1_0_1_0], 0)
   \<and> nn_ffnet_randomize 2147483647 (\<lambda>k. 2147483647) [net_1_0_1_0] 0
       = Some [net_1_0_1_0\<lparr>extra := [Num (1 / 2), Num (1 / 2), Num 0, Num 0]\<rparr>]
   \<and> load [net_1_0_1_0\<lparr>extra := [Num (1 / 2), Num (1 / 2), Num 0, Num 0]\<rparr>]
        (ptr_add (weight ([net_1_0_1_0] ! 0)) 0) = Some (Num (1 / 2))"
proof -
  have c: "nn_ffnet_create 80 [] 1 0 1 0 = Some ([net_1_0_1_0], 0)"
  proof -
    have "replicate 4 (Num 0) = [Num 0, Num 0, Num 0, Num 0]"
      by (simp add: numeral_eq_Suc)
    then show ?thesis
      by (simp add: nn_ffnet_create_def nn_ffnet_set_pointers_def net_1_0_1_0_def
          ptr_add_def)
  qed
  have n: "unat (nweights ([net_1_0_1_0] ! 0)) = Suc (Suc 0)"
    by (simp add: net_1_0_1_0_def)
  have r: "nn_ffnet_randomize 2147483647 (\<lambda>k. 2147483647) [net_1_0_1_0] 0
       = Some [net_1_0_1_0\<lparr>extra := [Num (1 / 2), Num (1 / 2), Num 0, Num 0]\<rparr>]"
    unfolding nn_ffnet_randomize_def n
    by (simp add: net_1_0_1_0_def nn_rand_def fsub_def store_def ptr_add_def)
  have l: "load [net_1_0_1_0\<lparr>extra := [Num (1 / 2), Num (1 / 2), Num 0, Num 0]\<rparr>]
        (ptr_add (weight ([net_1_0_1_0] ! 0)) 0) = Some (Num (1 / 2))"
    by (simp add: net_1_0_1_0_def load_def ptr_add_def)
  from c r l show ?thesis by blast
qed

section \<open>The loops on the memory and on one block\<close>

lemma with_extra_length [simp]: "length (with_extra m a e) = length m"
  by (simp add: with_extra_def)

lemma with_extra_nth [simp]:
  "a < length m \<Longrightarrow> with_extra m a e ! a = (m ! a)\<lparr>extra := e\<rparr>"
  by (simp add: with_extra_def)

lemma with_extra_twice [simp]:
  "with_extra (with_extra m a e) a e' = with_extra m a e'"
  by (cases "a < length m") (simp_all add: with_extra_def list_update_beyond)

lemma with_extra_same: "a < length m \<Longrightarrow> with_extra m a (extra (m ! a)) = m"
  by (simp add: with_extra_def list_update_same_conv)

lemma load_with_extra:
  "a < length m \<Longrightarrow>
   load (with_extra m a e) (a, j) = (if j < length e then Some (e ! j) else None)"
  by (simp add: load_def)

lemma store_with_extra:
  "a < length m \<Longrightarrow>
   store (with_extra m a e) (a, j) v
   = (if j < length e then Some (with_extra m a (e[j := v])) else None)"
  by (simp add: store_def) (simp add: with_extra_def)

lemma sum_loop_block:
  "a < length m \<Longrightarrow>
   sum_loop (with_extra m a e) (a, io) k n (a, wo) acc
   = map_option (\<lambda>(wo', s). ((a, wo'), s)) (block_sum_loop e io k n wo acc)"
  by (induction n arbitrary: k wo acc) (simp_all add: load_with_extra ptr_add_def)

lemma neuron_loop_block:
  assumes "a < length m" and act: "\<And>net x. act (net\<lparr>extra := x\<rparr>) = act net"
  shows "neuron_loop a act nw (a, io) n (with_extra m a e) (a, wo) (a, oo)
   = map_option (\<lambda>(e', wo', oo'). (with_extra m a e', (a, wo'), (a, oo')))
       (block_neuron_loop (bias (m ! a)) (act (m ! a)) nw io n e wo oo)"
  using assms(1)
proof (induction n arbitrary: e wo oo)
  case 0
  then show ?case by simp
next
  case (Suc n)
  show ?case
    using Suc.prems Suc.IH
    by (auto simp: load_with_extra store_with_extra sum_loop_block ptr_add_def act
        split: option.splits)
qed

lemma layer_loop_block:
  assumes "a < length m"
  shows "layer_loop a i n (with_extra m a e) (a, io) (a, wo) (a, oo)
   = map_option (\<lambda>(e', io', wo', oo'). (with_extra m a e', (a, io'), (a, wo'), (a, oo')))
       (block_layer_loop (m ! a) i n e io wo oo)"
  using assms
proof (induction n arbitrary: i e io wo oo)
  case 0
  then show ?case by simp
next
  case (Suc n)
  show ?case
    using Suc.prems Suc.IH
    by (auto simp: neuron_loop_block ptr_add_def Let_def split: option.splits)
qed

lemma memcpy_floats_block:
  "a < length m \<Longrightarrow>
   memcpy_floats m (a, base) src bytes
   = (let n = unat bytes div 4; e = extra (m ! a)
      in if length src < n then None
         else if \<not> base + n \<le> length e then None
         else Some (with_extra m a (take base e @ take n src @ drop (base + n) e)))"
  by (simp add: memcpy_floats_def with_extra_def Let_def)

lemma run_layers_block:
  assumes "nn_ffnet_ok m a"
  shows "run_layers m a inputs
   = map_option (\<lambda>(e', r, wo, oo). (with_extra m a e', (a, r), (a, wo), (a, oo)))
       (block_run (m ! a) inputs)"
proof -
  from assms have a: "a < length m" and w: "weight (m ! a) = (a, 0)"
    and o: "output' (m ! a) = (a, unat (nweights (m ! a)))"
    by (simp_all add: nn_ffnet_ok_def)
  show ?thesis
    using a
    by (auto simp: run_layers_def block_run_def memcpy_floats_block w o Let_def
        layer_loop_block neuron_loop_block ptr_add_def split: option.splits)
qed

section \<open>How far the pointers move\<close>








lemma unat_4_times:
  "4 * unat (x :: size_t) < 2 ^ 64 \<Longrightarrow> unat (4 * x) div 4 = unat x"
proof -
  assume "4 * unat x < 2 ^ 64"
  then have "unat (4 * x) = 4 * unat x"
    by (simp add: unat_word_ariths)
  then show ?thesis by simp
qed



section \<open>Creation\<close>

lemma of_nat_unat_size_t: "of_nat (unat (x :: size_t)) = x"
  by simp

lemma word_weight_count:
  fixes ic hc oc lc :: size_t
  assumes "(0 < hc) = (0 < lc)"
  shows "(if 0 < lc then (ic + 1) * hc + (lc - 1) * (hc + 1) * hc else 0)
         + (if 0 < lc then hc + 1 else ic + 1) * oc
         = of_nat (weight_count (unat ic) (unat hc) (unat oc) (unat lc))"
proof (cases "0 < lc")
  case True
  then have l: "0 < unat lc" by (simp add: word_less_nat_alt)
  then have d: "(of_nat (unat lc - 1) :: size_t) = lc - 1"
    by (simp add: of_nat_diff)
  have "(of_nat ((unat ic + 1) * unat hc + (unat lc - 1) * (unat hc + 1) * unat hc
           + (unat hc + 1) * unat oc) :: size_t)
        = (ic + 1) * hc + (lc - 1) * (hc + 1) * hc + (hc + 1) * oc"
    by (simp only: of_nat_add of_nat_mult of_nat_1 of_nat_unat_size_t d)
  then show ?thesis using True l
    by (simp only: weight_count_def if_True)
next
  case False
  then have l: "\<not> 0 < unat lc" by (simp add: word_less_nat_alt)
  have "(of_nat ((unat ic + 1) * unat oc) :: size_t) = (ic + 1) * oc"
    by (simp only: of_nat_add of_nat_mult of_nat_1 of_nat_unat_size_t)
  then show ?thesis using False l
    by (simp only: weight_count_def if_False add_0)
qed

lemma word_neuron_count:
  fixes ic hc oc lc :: size_t
  shows "ic + hc * lc + oc = of_nat (neuron_count (unat ic) (unat hc) (unat oc) (unat lc))"
  by (simp add: neuron_count_def)

lemma nn_ffnet_create_ok:
  fixes ic hc oc lc :: size_t
  assumes "0 < ic" and "0 < oc" and hl: "(0 < hc) = (0 < lc)"
    and fit: "unat sizeof_net
              + 4 * (weight_count (unat ic) (unat hc) (unat oc) (unat lc)
                     + neuron_count (unat ic) (unat hc) (unat oc) (unat lc)) < 2 ^ 64"
  shows "\<exists>net. nn_ffnet_create sizeof_net m ic hc oc lc = Some (m @ [net], length m)
           \<and> nn_ffnet_ok (m @ [net]) (length m) \<and> topology_ok net
           \<and> block_fits sizeof_net net
           \<and> ninputs net = ic \<and> nhiddens net = hc \<and> noutputs net = oc
           \<and> nhidden_layers net = lc
           \<and> hidden_activation net = NN_ACTIVATION_SIGMOID
           \<and> output_activation net = NN_ACTIVATION_SIGMOID \<and> bias net = Num (- 1)
           \<and> extra net
               = replicate (weight_count (unat ic) (unat hc) (unat oc) (unat lc)
                   + neuron_count (unat ic) (unat hc) (unat oc) (unat lc)) (Num 0)"
proof -
  define W N where "W = weight_count (unat ic) (unat hc) (unat oc) (unat lc)"
    and "N = neuron_count (unat ic) (unat hc) (unat oc) (unat lc)"
  define tw tn :: size_t where
    "tw = (if 0 < lc then (ic + 1) * hc + (lc - 1) * (hc + 1) * hc else 0)
          + (if 0 < lc then hc + 1 else ic + 1) * oc"
    and "tn = ic + hc * lc + oc"
  have tw: "tw = of_nat W" unfolding tw_def W_def by (rule word_weight_count [OF hl])
  have tn: "tn = of_nat N" unfolding tn_def N_def by (rule word_neuron_count)
  from fit have bs: "unat sizeof_net + 4 * (W + N) < 2 ^ 64" by (simp add: W_def N_def)
  then have b: "4 * (W + N) < 2 ^ 64" by simp
  have uw: "unat tw = W" using b by (simp add: tw unat_of_nat)
  have un: "unat tn = N" using b by (simp add: tn unat_of_nat)
  have "4 * (tw + tn) = of_nat (4 * (W + N))" by (simp add: tw tn)
  then have ui: "unat (4 * (tw + tn)) = 4 * (W + N)"
    using b by (simp add: unat_of_nat del: of_nat_mult of_nat_add)
  then have ub: "unat (4 * (tw + tn)) div 4 = W + N" by simp
  have "sizeof_net + 4 * (tw + tn) = of_nat (unat sizeof_net + unat (4 * (tw + tn)))"
    by (simp only: of_nat_add of_nat_unat_size_t)
  then have us: "unat (sizeof_net + 4 * (tw + tn)) = unat sizeof_net + unat (4 * (tw + tn))"
    using bs ui by (simp only: unat_of_nat) simp
  have c: "nn_ffnet_create sizeof_net m ic hc oc lc
    = Some (m @ [\<lparr>ninputs = ic, nhiddens = hc, noutputs = oc, nhidden_layers = lc,
        nweights = tw, nneurons = tn, hidden_activation = NN_ACTIVATION_SIGMOID,
        output_activation = NN_ACTIVATION_SIGMOID, bias = Num (- 1),
        weight = (length m, 0), output' = (length m, W),
        extra = replicate (W + N) (Num 0)\<rparr>], length m)"
    unfolding nn_ffnet_create_def Let_def tw_def [symmetric] tn_def [symmetric]
    using assms(1-3) uw ub us
    by (simp add: nn_ffnet_set_pointers_def ptr_add_def Let_def)
  show ?thesis
    using c uw un b bs assms(1-3)
    by (simp add: nn_ffnet_ok_def topology_ok_def block_fits_def W_def [symmetric]
        N_def [symmetric])
qed

text \<open>
  With \<open>2\<^sup>6\<^sup>1 - 2\<close> inputs, no hidden layer and one output, the data takes
  \<open>2\<^sup>6\<^sup>4 - 8\<close> bytes, which fits a \<open>size_t\<close>, but the block with a struct of 80
  bytes does not: \<open>malloc\<close> is given 72 bytes, and \<open>memset\<close> writes outside them.
\<close>

lemma nn_ffnet_create_wraps: "nn_ffnet_create 80 [] 2305843009213693950 0 1 0 = None"
  by (simp add: nn_ffnet_create_def)

section \<open>Running with all weights zero\<close>

lemma block_sum_loop_zero:
  assumes "wo + n \<le> length e" and "io + k + n \<le> length e"
    and "\<forall>j. wo \<le> j \<and> j < wo + n \<longrightarrow> e ! j = Num 0"
    and "\<forall>j. io + k \<le> j \<and> j < io + k + n \<longrightarrow> is_number (e ! j)"
  shows "block_sum_loop e io k n wo (Num c) = Some (wo + n, Num c)"
  using assms
proof (induction n arbitrary: k wo)
  case 0
  then show ?case by simp
next
  case (Suc n)
  have w: "e ! wo = Num 0" using Suc.prems(3) by simp
  have "is_number (e ! (io + k))" using Suc.prems(4) by simp
  then obtain x where x: "e ! (io + k) = Num x" by (cases "e ! (io + k)") simp_all
  have "block_sum_loop e io (Suc k) n (Suc wo) (Num c) = Some (Suc wo + n, Num c)"
    using Suc.prems by (intro Suc.IH) simp_all
  then show ?case using Suc.prems(1,2) w x by simp
qed

lemma block_neuron_loop_zero:
  assumes v0: "nn_activate act (Num 0) = Some v0"
    and "\<forall>j<base. e ! j = Num 0" and "wo + n * Suc nw \<le> base" and "base \<le> io"
    and "io + nw \<le> oo" and "oo + n \<le> length e"
    and "\<forall>j. io \<le> j \<and> j < io + nw \<longrightarrow> is_number (e ! j)"
  shows "\<exists>e'. block_neuron_loop (Num c) act nw io n e wo oo
             = Some (e', wo + n * Suc nw, oo + n)
           \<and> length e' = length e \<and> (\<forall>j<oo. e' ! j = e ! j)
           \<and> (\<forall>j. oo \<le> j \<and> j < oo + n \<longrightarrow> e' ! j = v0)"
  using assms(2-)
proof (induction n arbitrary: e wo oo)
  case 0
  then show ?case by auto
next
  case (Suc n)
  have wlt: "wo < length e" and w: "e ! wo = Num 0"
    using Suc.prems by simp_all
  have s: "block_sum_loop e io 0 nw (Suc wo) (Num 0) = Some (Suc wo + nw, Num 0)"
    using Suc.prems by (intro block_sum_loop_zero) simp_all
  let ?e = "e[oo := v0]"
  have "\<exists>e'. block_neuron_loop (Num c) act nw io n ?e (Suc wo + nw) (Suc oo)
             = Some (e', Suc wo + nw + n * Suc nw, Suc oo + n)
           \<and> length e' = length ?e \<and> (\<forall>j<Suc oo. e' ! j = ?e ! j)
           \<and> (\<forall>j. Suc oo \<le> j \<and> j < Suc oo + n \<longrightarrow> e' ! j = v0)"
    using Suc.prems by (intro Suc.IH) simp_all
  then obtain e' where
    r: "block_neuron_loop (Num c) act nw io n ?e (Suc wo + nw) (Suc oo)
             = Some (e', Suc wo + nw + n * Suc nw, Suc oo + n)"
    and l: "length e' = length e" and f: "\<forall>j<Suc oo. e' ! j = ?e ! j"
    and v: "\<forall>j. Suc oo \<le> j \<and> j < Suc oo + n \<longrightarrow> e' ! j = v0"
    by auto
  have oolt: "oo < length e" using Suc.prems by simp
  have 1: "block_neuron_loop (Num c) act nw io (Suc n) e wo oo
             = Some (e', wo + Suc n * Suc nw, oo + Suc n)"
    using wlt w s v0 oolt r by (simp add: add.assoc)
  have 2: "\<forall>j<oo. e' ! j = e ! j"
    using f by simp
  have "e' ! oo = v0" using f oolt by simp
  then have 3: "\<forall>j. oo \<le> j \<and> j < oo + Suc n \<longrightarrow> e' ! j = v0"
    using v by (metis Suc_leI add_Suc add_Suc_right le_neq_implies_less)
  from 1 l 2 3 show ?case by blast
qed


lemma nn_activate_zero:
  "nn_activate NN_ACTIVATION_SIGMOID (Num 0) = Some (Num (1 / 2))"
  "nn_activate NN_ACTIVATION_FAST_SIGMOID (Num 0) = Some (Num 0)"
  "nn_activate NN_ACTIVATION_RELU (Num 0) = Some (Num 0)"
  by (simp_all add: nn_sigmoid_def nn_fast_sigmoid_def nn_relu_def fgt_def)

lemma recognised_zero:
  "recognised act \<Longrightarrow> \<exists>v0. nn_activate act (Num 0) = Some v0 \<and> is_number v0"
  using nn_activate_zero by (cases act) auto

lemma block_layer_loop_hidden_zero:
  assumes v0: "nn_activate (hidden_activation net) (Num 0) = Some v0" and n0: "is_number v0"
    and b: "bias net = Num c"
    and "0 < i" and "oo = io + unat (nhiddens net)"
    and "\<forall>j<base. e ! j = Num 0"
    and "wo + n * (unat (nhiddens net) * Suc (unat (nhiddens net))) \<le> base"
    and "base \<le> io" and "oo + n * unat (nhiddens net) \<le> length e"
    and "\<forall>j. io \<le> j \<and> j < io + unat (nhiddens net) \<longrightarrow> is_number (e ! j)"
  shows "\<exists>e'. block_layer_loop net i n e io wo oo
             = Some (e', io + n * unat (nhiddens net),
                 wo + n * (unat (nhiddens net) * Suc (unat (nhiddens net))),
                 oo + n * unat (nhiddens net))
           \<and> length e' = length e \<and> (\<forall>j<oo. e' ! j = e ! j)
           \<and> (\<forall>j. io + n * unat (nhiddens net) \<le> j \<and> j < oo + n * unat (nhiddens net)
                 \<longrightarrow> is_number (e' ! j))"
  using assms(4-)
proof (induction n arbitrary: i e io wo oo)
  case 0
  then show ?case by simp
next
  case (Suc n)
  let ?h = "unat (nhiddens net)"
  have "\<exists>e1. block_neuron_loop (Num c) (hidden_activation net) ?h io ?h e wo oo
             = Some (e1, wo + ?h * Suc ?h, oo + ?h)
           \<and> length e1 = length e \<and> (\<forall>j<oo. e1 ! j = e ! j)
           \<and> (\<forall>j. oo \<le> j \<and> j < oo + ?h \<longrightarrow> e1 ! j = v0)"
    using Suc.prems by (intro block_neuron_loop_zero [OF v0, of base]) simp_all
  then obtain e1 where
    e1: "block_neuron_loop (Num c) (hidden_activation net) ?h io ?h e wo oo
           = Some (e1, wo + ?h * Suc ?h, oo + ?h)"
    and l1: "length e1 = length e" and f1: "\<forall>j<oo. e1 ! j = e ! j"
    and v1: "\<forall>j. oo \<le> j \<and> j < oo + ?h \<longrightarrow> e1 ! j = v0"
    by auto
  have "\<exists>e'. block_layer_loop net (Suc i) n e1 (io + ?h) (wo + ?h * Suc ?h) (oo + ?h)
             = Some (e', io + ?h + n * ?h, wo + ?h * Suc ?h + n * (?h * Suc ?h),
                 oo + ?h + n * ?h)
           \<and> length e' = length e1 \<and> (\<forall>j<oo + ?h. e' ! j = e1 ! j)
           \<and> (\<forall>j. io + ?h + n * ?h \<le> j \<and> j < oo + ?h + n * ?h \<longrightarrow> is_number (e' ! j))"
    using Suc.prems l1 f1 v1 n0 by (intro Suc.IH) simp_all
  then obtain e' where
    r: "block_layer_loop net (Suc i) n e1 (io + ?h) (wo + ?h * Suc ?h) (oo + ?h)
             = Some (e', io + ?h + n * ?h, wo + ?h * Suc ?h + n * (?h * Suc ?h),
                 oo + ?h + n * ?h)"
    and l: "length e' = length e1" and f: "\<forall>j<oo + ?h. e' ! j = e1 ! j"
    and v: "\<forall>j. io + ?h + n * ?h \<le> j \<and> j < oo + ?h + n * ?h \<longrightarrow> is_number (e' ! j)"
    by auto
  have 1: "block_layer_loop net i (Suc n) e io wo oo
             = Some (e', io + Suc n * ?h, wo + Suc n * (?h * Suc ?h), oo + Suc n * ?h)"
    using e1 r b Suc.prems(1) by (simp add: add.assoc Let_def)
  have 2: "\<forall>j<oo. e' ! j = e ! j" using f f1 by simp
  have 3: "\<forall>j. io + Suc n * ?h \<le> j \<and> j < oo + Suc n * ?h \<longrightarrow> is_number (e' ! j)"
    using v by (simp add: add.assoc)
  from 1 2 3 l l1 show ?case by simp
qed

lemma block_layer_loop_zero:
  assumes v0: "nn_activate (hidden_activation net) (Num 0) = Some v0" and n0: "is_number v0"
    and b: "bias net = Num c"
    and oo: "oo = io + unat (ninputs net)"
    and z: "\<forall>j<base. e ! j = Num 0"
    and w: "wo + unat (nhiddens net) * Suc (unat (ninputs net))
         + n * (unat (nhiddens net) * Suc (unat (nhiddens net))) \<le> base"
    and base: "base \<le> io" and len: "oo + Suc n * unat (nhiddens net) \<le> length e"
    and num: "\<forall>j. io \<le> j \<and> j < io + unat (ninputs net) \<longrightarrow> is_number (e ! j)"
  shows "\<exists>e'. block_layer_loop net 0 (Suc n) e io wo oo
             = Some (e', io + unat (ninputs net) + n * unat (nhiddens net),
                 wo + unat (nhiddens net) * Suc (unat (ninputs net))
                 + n * (unat (nhiddens net) * Suc (unat (nhiddens net))),
                 oo + Suc n * unat (nhiddens net))
           \<and> length e' = length e \<and> (\<forall>j<oo. e' ! j = e ! j)
           \<and> (\<forall>j. io + unat (ninputs net) + n * unat (nhiddens net) \<le> j
                   \<and> j < oo + Suc n * unat (nhiddens net) \<longrightarrow> is_number (e' ! j))"
proof -
  let ?h = "unat (nhiddens net)"
  let ?i = "unat (ninputs net)"
  have "\<exists>e1. block_neuron_loop (Num c) (hidden_activation net) ?i io ?h e wo oo
             = Some (e1, wo + ?h * Suc ?i, oo + ?h)
           \<and> length e1 = length e \<and> (\<forall>j<oo. e1 ! j = e ! j)
           \<and> (\<forall>j. oo \<le> j \<and> j < oo + ?h \<longrightarrow> e1 ! j = v0)"
    using oo z w base len num by (intro block_neuron_loop_zero [OF v0, of base]) simp_all
  then obtain e1 where
    e1: "block_neuron_loop (Num c) (hidden_activation net) ?i io ?h e wo oo
           = Some (e1, wo + ?h * Suc ?i, oo + ?h)"
    and l1: "length e1 = length e" and f1: "\<forall>j<oo. e1 ! j = e ! j"
    and v1: "\<forall>j. oo \<le> j \<and> j < oo + ?h \<longrightarrow> e1 ! j = v0"
    by auto
  have "\<exists>e'. block_layer_loop net (Suc 0) n e1 (io + ?i) (wo + ?h * Suc ?i) (oo + ?h)
             = Some (e', io + ?i + n * ?h, wo + ?h * Suc ?i + n * (?h * Suc ?h),
                 oo + ?h + n * ?h)
           \<and> length e' = length e1 \<and> (\<forall>j<oo + ?h. e' ! j = e1 ! j)
           \<and> (\<forall>j. io + ?i + n * ?h \<le> j \<and> j < oo + ?h + n * ?h \<longrightarrow> is_number (e' ! j))"
    using oo z w base len l1 f1 v1 n0
    by (intro block_layer_loop_hidden_zero [OF v0 n0 b, of "Suc 0" _ _ base]) simp_all
  then obtain e' where
    r: "block_layer_loop net (Suc 0) n e1 (io + ?i) (wo + ?h * Suc ?i) (oo + ?h)
             = Some (e', io + ?i + n * ?h, wo + ?h * Suc ?i + n * (?h * Suc ?h),
                 oo + ?h + n * ?h)"
    and l: "length e' = length e1" and f: "\<forall>j<oo + ?h. e' ! j = e1 ! j"
    and v: "\<forall>j. io + ?i + n * ?h \<le> j \<and> j < oo + ?h + n * ?h \<longrightarrow> is_number (e' ! j)"
    by auto
  have 1: "block_layer_loop net 0 (Suc n) e io wo oo
             = Some (e', io + ?i + n * ?h, wo + ?h * Suc ?i + n * (?h * Suc ?h),
                 oo + Suc n * ?h)"
    using e1 r b by (simp add: add.assoc Let_def)
  have 2: "\<forall>j<oo. e' ! j = e ! j" using f f1 by simp
  have 3: "\<forall>j. io + ?i + n * ?h \<le> j \<and> j < oo + Suc n * ?h \<longrightarrow> is_number (e' ! j)"
    using v by (simp add: add.assoc)
  from 1 2 3 l l1 show ?thesis by simp
qed

lemma block_run_zero:
  assumes t: "topology_ok net" and rh: "recognised (hidden_activation net)"
    and ro: "recognised (output_activation net)"
    and len: "length (extra net) = unat (nweights net) + unat (nneurons net)"
    and bytes: "4 * length (extra net) < 2 ^ 64"
    and inp: "unat (ninputs net) \<le> length inputs"
    and wz: "\<forall>j<unat (nweights net). extra net ! j = Num 0"
    and b: "bias net = Num c"
    and fin: "\<forall>j<unat (ninputs net). is_number (inputs ! j)"
  shows "\<exists>e' v. block_run net inputs
             = Some (e', unat (nweights net) + unat (nneurons net) - unat (noutputs net),
                 unat (nweights net), unat (nweights net) + unat (nneurons net))
           \<and> length e' = length (extra net)
           \<and> nn_activate (output_activation net) (Num 0) = Some v
           \<and> (\<forall>j. unat (nweights net) + unat (nneurons net) - unat (noutputs net) \<le> j
                   \<and> j < unat (nweights net) + unat (nneurons net) \<longrightarrow> e' ! j = v)"
proof -
  define ic hc oc lc where "ic = unat (ninputs net)" and "hc = unat (nhiddens net)"
    and "oc = unat (noutputs net)" and "lc = unat (nhidden_layers net)"
  define W N where "W = unat (nweights net)" and "N = unat (nneurons net)"
  define e0 where "e0 = take W (extra net) @ take ic inputs @ drop (W + ic) (extra net)"
  note defs = ic_def hc_def oc_def lc_def W_def N_def
  from t have W: "W = weight_count ic hc oc lc" and N: "N = neuron_count ic hc oc lc"
    and hl: "(0 < hc) = (0 < lc)"
    by (simp_all add: topology_ok_def defs word_less_nat_alt)
  have icN: "ic \<le> N" by (simp add: N neuron_count_def)
  have n: "unat (4 * ninputs net) div 4 = ic"
    unfolding ic_def using bytes len icN by (intro unat_4_times) (simp add: defs)
  have le0: "length e0 = W + N"
    using len inp icN by (simp add: e0_def defs)
  have f0: "\<forall>j<W. e0 ! j = Num 0"
    using len wz by (simp add: e0_def nth_append defs)
  have i0: "\<forall>j. W \<le> j \<and> j < W + ic \<longrightarrow> is_number (e0 ! j)"
  proof (intro allI impI)
    fix j assume j: "W \<le> j \<and> j < W + ic"
    then have "e0 ! j = inputs ! (j - W)"
      using len inp icN by (auto simp: e0_def nth_append defs)
    moreover have "j - W < ic" using j by auto
    ultimately show "is_number (e0 ! j)" using fin by (simp add: defs)
  qed
  obtain v where v: "nn_activate (output_activation net) (Num 0) = Some v"
    using recognised_zero [OF ro] by blast
  obtain v0 where v0: "nn_activate (hidden_activation net) (Num 0) = Some v0"
    and n0: "is_number v0"
    using recognised_zero [OF rh] by blast
  have z: "(nhidden_layers net = 0) = (lc = 0)"
    by (simp add: lc_def unat_eq_0)
  have start: "block_run net inputs =
    (case block_layer_loop net 0 lc e0 W 0 (W + ic) of
       None \<Rightarrow> None
     | Some (e2, io, wo, oo) \<Rightarrow>
         (case block_neuron_loop (Num c) (output_activation net)
                 (if lc = 0 then ic else hc) io oc e2 wo oo of
            None \<Rightarrow> None
          | Some (e3, wo', oo') \<Rightarrow> Some (e3, oo, wo', oo')))"
    using inp len icN
    by (auto simp: block_run_def n z b Let_def e0_def [symmetric] defs [symmetric]
        split: option.splits)
  show ?thesis
  proof (cases lc)
    case 0
    then have hc0: "hc = 0" using hl by simp
    have W0: "W = oc * Suc ic" and N0: "N = ic + oc"
      using 0 hc0 by (simp_all add: W N weight_count_def neuron_count_def)
    have "\<exists>e'. block_neuron_loop (Num c) (output_activation net) ic W oc e0 0 (W + ic)
             = Some (e', 0 + oc * Suc ic, W + ic + oc)
           \<and> length e' = length e0 \<and> (\<forall>j<W + ic. e' ! j = e0 ! j)
           \<and> (\<forall>j. W + ic \<le> j \<and> j < W + ic + oc \<longrightarrow> e' ! j = v)"
      using f0 i0 le0 W0 N0 by (intro block_neuron_loop_zero [OF v, of W]) simp_all
    then obtain e' where
      "block_neuron_loop (Num c) (output_activation net) ic W oc e0 0 (W + ic)
         = Some (e', 0 + oc * Suc ic, W + ic + oc)"
      and "length e' = length e0"
      and "\<forall>j. W + ic \<le> j \<and> j < W + ic + oc \<longrightarrow> e' ! j = v"
      by auto
    then show ?thesis
      using start 0 le0 W0 N0 len v by (auto simp: defs [symmetric])
  next
    case (Suc l)
    then have hc: "0 < hc" using hl by simp
    have W1: "W = hc * Suc ic + l * (hc * Suc hc) + oc * Suc hc"
      using Suc by (simp add: W weight_count_def algebra_simps)
    have N1: "N = ic + Suc l * hc + oc"
      using Suc by (simp add: N neuron_count_def algebra_simps)
    have "\<exists>e2. block_layer_loop net 0 (Suc l) e0 W 0 (W + ic)
             = Some (e2, W + unat (ninputs net) + l * unat (nhiddens net),
                 0 + unat (nhiddens net) * Suc (unat (ninputs net))
                 + l * (unat (nhiddens net) * Suc (unat (nhiddens net))),
                 W + ic + Suc l * unat (nhiddens net))
           \<and> length e2 = length e0 \<and> (\<forall>j<W + ic. e2 ! j = e0 ! j)
           \<and> (\<forall>j. W + unat (ninputs net) + l * unat (nhiddens net) \<le> j
                   \<and> j < W + ic + Suc l * unat (nhiddens net) \<longrightarrow> is_number (e2 ! j))"
      using f0 i0 le0 W1 N1
      by (intro block_layer_loop_zero [OF v0 n0 b, of _ _ W]) (simp_all add: defs [symmetric])
    then obtain e2 where
      l2: "block_layer_loop net 0 (Suc l) e0 W 0 (W + ic)
         = Some (e2, W + ic + l * hc, 0 + hc * Suc ic + l * (hc * Suc hc),
             W + ic + Suc l * hc)"
      and le2: "length e2 = length e0" and f2: "\<forall>j<W + ic. e2 ! j = e0 ! j"
      and n2: "\<forall>j. W + ic + l * hc \<le> j \<and> j < W + ic + Suc l * hc \<longrightarrow> is_number (e2 ! j)"
      by (auto simp: defs [symmetric])
    have "\<exists>e'. block_neuron_loop (Num c) (output_activation net) hc (W + ic + l * hc) oc e2
                 (0 + hc * Suc ic + l * (hc * Suc hc)) (W + ic + Suc l * hc)
             = Some (e', 0 + hc * Suc ic + l * (hc * Suc hc) + oc * Suc hc,
                 W + ic + Suc l * hc + oc)
           \<and> length e' = length e2 \<and> (\<forall>j<W + ic + Suc l * hc. e' ! j = e2 ! j)
           \<and> (\<forall>j. W + ic + Suc l * hc \<le> j \<and> j < W + ic + Suc l * hc + oc \<longrightarrow> e' ! j = v)"
      using f0 f2 n2 le0 le2 W1 N1
      by (intro block_neuron_loop_zero [OF v, of W]) simp_all
    then obtain e' where
      "block_neuron_loop (Num c) (output_activation net) hc (W + ic + l * hc) oc e2
          (0 + hc * Suc ic + l * (hc * Suc hc)) (W + ic + Suc l * hc)
         = Some (e', 0 + hc * Suc ic + l * (hc * Suc hc) + oc * Suc hc,
             W + ic + Suc l * hc + oc)"
      and "length e' = length e2"
      and "\<forall>j. W + ic + Suc l * hc \<le> j \<and> j < W + ic + Suc l * hc + oc \<longrightarrow> e' ! j = v"
      by auto
    then show ?thesis
      using start Suc l2 le2 le0 W1 N1 len v by (auto simp: defs [symmetric])
  qed
qed

section \<open>The run of a network\<close>

lemma ptr_diff_is_offsets:
  "ptr_diff_is (a, i + unat n) (a, i) n"
  by (simp add: ptr_diff_is_def)

lemma nn_ffnet_run_block:
  assumes ok: "nn_ffnet_ok m a"
    and r: "block_run (m ! a) inputs
            = Some (e', r, unat (nweights (m ! a)),
                unat (nweights (m ! a)) + unat (nneurons (m ! a)))"
  shows "run_layers m a inputs
           = Some (with_extra m a e', (a, r), ptr_add (weight (m ! a)) (unat (nweights (m ! a))),
               ptr_add (output' (m ! a)) (unat (nneurons (m ! a))))"
    and "nn_ffnet_run m a inputs = Some (with_extra m a e', (a, r))"
proof -
  from ok have a: "a < length m" and w: "weight (m ! a) = (a, 0)"
    and o: "output' (m ! a) = (a, unat (nweights (m ! a)))"
    by (simp_all add: nn_ffnet_ok_def)
  show 1: "run_layers m a inputs
           = Some (with_extra m a e', (a, r), ptr_add (weight (m ! a)) (unat (nweights (m ! a))),
               ptr_add (output' (m ! a)) (unat (nneurons (m ! a))))"
    using r by (simp add: run_layers_block [OF ok] w o ptr_add_def)
  have "ptr_diff_is (a, 0 + unat (nweights (m ! a))) (a, 0) (nweights (m ! a))"
    by (rule ptr_diff_is_offsets)
  moreover have "ptr_diff_is (a, unat (nweights (m ! a)) + unat (nneurons (m ! a)))
                   (a, unat (nweights (m ! a))) (nneurons (m ! a))"
    by (rule ptr_diff_is_offsets)
  ultimately show "nn_ffnet_run m a inputs = Some (with_extra m a e', (a, r))"
    using 1 a w o by (simp add: nn_ffnet_run_def ptr_add_def)
qed

lemma load_floats_with_extra:
  assumes "a < length m" and "r + n \<le> length e"
    and "\<forall>j. r \<le> j \<and> j < r + n \<longrightarrow> e ! j = v"
  shows "load_floats (with_extra m a e) (a, r) n = replicate n (Some v)"
  using assms
  by (intro nth_equalityI) (simp_all add: load_floats_def load_with_extra ptr_add_def)




lemma nn_ffnet_run_zero:
  assumes ok: "nn_ffnet_ok m a" and t: "topology_ok (m ! a)"
    and rh: "recognised (hidden_activation (m ! a))"
    and ro: "recognised (output_activation (m ! a))"
    and wz: "\<forall>i<unat (nweights (m ! a)). load m (ptr_add (weight (m ! a)) i) = Some (Num 0)"
    and b: "bias (m ! a) = Num c"
    and inp: "unat (ninputs (m ! a)) \<le> length inputs"
    and fin: "\<forall>x\<in>set inputs. is_number x"
  shows "\<exists>m' ret. nn_ffnet_run m a inputs = Some (m', ret)
           \<and> load_floats m' ret (unat (noutputs (m ! a)))
               = replicate (unat (noutputs (m ! a)))
                   (nn_activate (output_activation (m ! a)) (Num 0))"
proof -
  let ?net = "m ! a"
  let ?W = "unat (nweights ?net)" and ?N = "unat (nneurons ?net)"
  let ?oc = "unat (noutputs ?net)"
  from ok have a: "a < length m" and w: "weight ?net = (a, 0)"
    and len: "length (extra ?net) = ?W + ?N" and bytes: "4 * length (extra ?net) < 2 ^ 64"
    by (simp_all add: nn_ffnet_ok_def)
  have wz': "\<forall>j<?W. extra ?net ! j = Num 0"
    using wz a len by (auto simp: w load_def ptr_add_def)
  have fin': "\<forall>j<unat (ninputs ?net). is_number (inputs ! j)"
    using fin inp by simp
  obtain e' v where
    r: "block_run ?net inputs = Some (e', ?W + ?N - ?oc, ?W, ?W + ?N)"
    and le: "length e' = length (extra ?net)"
    and v: "nn_activate (output_activation ?net) (Num 0) = Some v"
    and o: "\<forall>j. ?W + ?N - ?oc \<le> j \<and> j < ?W + ?N \<longrightarrow> e' ! j = v"
    using block_run_zero [OF t rh ro len bytes inp wz' b fin'] by blast
  have ocN: "?oc \<le> ?N"
    using t by (simp add: topology_ok_def neuron_count_def)
  have "load_floats (with_extra m a e') (a, ?W + ?N - ?oc) ?oc = replicate ?oc (Some v)"
    using a le len ocN o by (intro load_floats_with_extra) simp_all
  then show ?thesis
    using nn_ffnet_run_block(2) [OF ok r] v by simp
qed

text \<open>
  C6, as amended. Take a network as \<open>nn_ffnet_create\<close> lays it out, with recognised
  activation selectors, all weights zero and bias zero. Run on inputs that are all
  numbers (no NaN, no infinity), it returns, and every output is the output activation's
  value at zero: 0.5 for the logistic sigmoid, 0 for ReLU and 0 for the fast sigmoid.
\<close>

theorem nn_ffnet_run_zero_weights:
  assumes "nn_ffnet_ok m a" and "topology_ok (m ! a)"
    and "recognised (hidden_activation (m ! a))"
    and "recognised (output_activation (m ! a))"
    and "\<forall>i<unat (nweights (m ! a)). load m (ptr_add (weight (m ! a)) i) = Some (Num 0)"
    and "bias (m ! a) = Num 0"
    and "unat (ninputs (m ! a)) \<le> length inputs"
    and "\<forall>x\<in>set inputs. is_number x"
  shows "\<exists>m' ret. nn_ffnet_run m a inputs = Some (m', ret)
           \<and> load_floats m' ret (unat (noutputs (m ! a)))
               = replicate (unat (noutputs (m ! a)))
                   (Some (case output_activation (m ! a) of
                            NN_ACTIVATION_SIGMOID \<Rightarrow> Num (1 / 2)
                          | NN_ACTIVATION_FAST_SIGMOID \<Rightarrow> Num 0
                          | NN_ACTIVATION_RELU \<Rightarrow> Num 0
                          | NN_ACTIVATION_OTHER x \<Rightarrow> NaN))"
proof -
  have "nn_activate (output_activation (m ! a)) (Num 0)
        = Some (case output_activation (m ! a) of
                  NN_ACTIVATION_SIGMOID \<Rightarrow> Num (1 / 2)
                | NN_ACTIVATION_FAST_SIGMOID \<Rightarrow> Num 0
                | NN_ACTIVATION_RELU \<Rightarrow> Num 0
                | NN_ACTIVATION_OTHER x \<Rightarrow> NaN)"
    using assms(4) nn_activate_zero by (cases "output_activation (m ! a)") simp_all
  with nn_ffnet_run_zero [OF assms] show ?thesis by simp
qed

theorem nn_ffnet_run_zero_weights_witness:
  "\<exists>m' ret. nn_ffnet_run [net_1_0_1_0\<lparr>bias := Num 0, output_activation := NN_ACTIVATION_RELU\<rparr>]
               0 [Num 7] = Some (m', ret)
       \<and> load_floats m' ret 1 = [Some (Num 0)]"
proof -
  let ?m = "[net_1_0_1_0\<lparr>bias := Num 0, output_activation := NN_ACTIVATION_RELU\<rparr>]"
  have ok: "nn_ffnet_ok ?m 0"
    by (simp add: nn_ffnet_ok_def net_1_0_1_0_def)
  have t: "topology_ok (?m ! 0)"
    by (simp add: topology_ok_def net_1_0_1_0_def weight_count_def neuron_count_def)
  have n: "unat (nweights (?m ! 0)) = Suc (Suc 0)"
    by (simp add: net_1_0_1_0_def)
  have z: "\<forall>i<unat (nweights (?m ! 0)). load ?m (ptr_add (weight (?m ! 0)) i) = Some (Num 0)"
    unfolding n by (simp add: net_1_0_1_0_def load_def ptr_add_def less_Suc_eq)
  show ?thesis
    using nn_ffnet_run_zero_weights [of ?m 0 "[Num 7]", OF ok t _ _ z]
    by (simp add: net_1_0_1_0_def)
qed

text \<open>
  C6 as stated fails on an input that is not a number: with a NaN input the product
  \<open>0 * NaN\<close> is NaN, and so is the output of the logistic sigmoid, not 0.5.
\<close>

theorem nn_ffnet_run_zero_weights_counterexample:
  "nn_ffnet_run [net_1_0_1_0\<lparr>bias := Num 0\<rparr>] 0 [NaN]
     = Some ([net_1_0_1_0\<lparr>bias := Num 0, extra := [Num 0, Num 0, NaN, NaN]\<rparr>], (0, 3))
   \<and> load_floats [net_1_0_1_0\<lparr>bias := Num 0, extra := [Num 0, Num 0, NaN, NaN]\<rparr>] (0, 3) 1
     = [Some NaN]"
proof -
  let ?m = "[net_1_0_1_0\<lparr>bias := Num 0\<rparr>]"
  have ok: "nn_ffnet_ok ?m 0"
    by (simp add: nn_ffnet_ok_def net_1_0_1_0_def)
  have f: "unat (4 * ninputs (?m ! 0)) div 4 = Suc 0" "unat (nweights (?m ! 0)) = Suc (Suc 0)"
    "unat (ninputs (?m ! 0)) = Suc 0" "unat (nhidden_layers (?m ! 0)) = 0"
    "unat (noutputs (?m ! 0)) = Suc 0" "nhidden_layers (?m ! 0) = 0"
    "extra (?m ! 0) = [Num 0, Num 0, Num 0, Num 0]" "bias (?m ! 0) = Num 0"
    "output_activation (?m ! 0) = NN_ACTIVATION_SIGMOID"
    by (simp_all add: net_1_0_1_0_def)
  have b: "block_run (?m ! 0) [NaN]
           = Some ([Num 0, Num 0, NaN, NaN], Suc (Suc (Suc 0)), Suc (Suc 0),
               Suc (Suc (Suc (Suc 0))))"
    unfolding block_run_def Let_def f by (simp add: nn_sigmoid_def fgt_def)
  have "block_run (?m ! 0) [NaN]
     = Some ([Num 0, Num 0, NaN, NaN], 3, unat (nweights (?m ! 0)),
         unat (nweights (?m ! 0)) + unat (nneurons (?m ! 0)))"
    using b unfolding f by (simp add: net_1_0_1_0_def)
  from nn_ffnet_run_block(2) [OF ok this]
  have "nn_ffnet_run ?m 0 [NaN]
     = Some ([net_1_0_1_0\<lparr>bias := Num 0, extra := [Num 0, Num 0, NaN, NaN]\<rparr>], (0, 3))"
    by (simp add: with_extra_def)
  moreover have
    "load_floats [net_1_0_1_0\<lparr>bias := Num 0, extra := [Num 0, Num 0, NaN, NaN]\<rparr>] (0, 3) 1
     = [Some NaN]"
    by (simp add: load_floats_def load_def ptr_add_def)
  ultimately show ?thesis by simp
qed

section \<open>Copies\<close>

lemma run_outputs_block:
  assumes ok: "nn_ffnet_ok m a"
  shows "run_outputs m a inputs n = block_outputs (m ! a) inputs n"
proof -
  from ok have a: "a < length m" and w: "weight (m ! a) = (a, 0)"
    and o: "output' (m ! a) = (a, unat (nweights (m ! a)))"
    by (simp_all add: nn_ffnet_ok_def)
  show ?thesis
  proof (cases "block_run (m ! a) inputs")
    case None
    then show ?thesis
      by (simp add: run_outputs_def block_outputs_def nn_ffnet_run_def run_layers_block [OF ok])
  next
    case (Some x)
    obtain e' r wo oo where x: "x = (e', r, wo, oo)" by (cases x)
    have l: "load_floats (with_extra m a e') (a, r) n
             = map (\<lambda>i. if r + i < length e' then Some (e' ! (r + i)) else None) [0..<n]"
      using a by (simp add: load_floats_def load_with_extra ptr_add_def)
    show ?thesis
      using Some x a w o l
      by (simp add: run_outputs_def block_outputs_def nn_ffnet_run_def
          run_layers_block [OF ok] ptr_diff_is_def)
  qed
qed

lemma block_layer_loop_pointers:
  "block_layer_loop (net\<lparr>weight := p, output' := q\<rparr>) i n e io wo oo
   = block_layer_loop net i n e io wo oo"
  by (induction n arbitrary: i e io wo oo) (simp_all add: Let_def split: option.splits)

lemma block_run_pointers:
  "block_run (net\<lparr>weight := p, output' := q\<rparr>) inputs = block_run net inputs"
  by (auto simp: block_run_def block_layer_loop_pointers Let_def split: option.splits)

lemma block_outputs_pointers:
  "block_outputs (net\<lparr>weight := p, output' := q\<rparr>) inputs n = block_outputs net inputs n"
  by (auto simp: block_outputs_def block_run_pointers split: option.splits)

lemma nn_ffnet_ok_block:
  "nn_ffnet_ok m a \<Longrightarrow> a < length m2 \<Longrightarrow> m2 ! a = m ! a \<Longrightarrow> nn_ffnet_ok m2 a"
  by (simp add: nn_ffnet_ok_def)

lemma nn_ffnet_copy_ok:
  assumes ok: "nn_ffnet_ok m a" and pos: "0 < length (extra (m ! a))"
    and fits: "block_fits sizeof_net (m ! a)"
  shows "nn_ffnet_copy sizeof_net m a
         = Some (m @ [(m ! a)\<lparr>weight := (length m, 0),
                     output' := (length m, unat (nweights (m ! a)))\<rparr>], length m)"
proof -
  let ?net = "m ! a"
  let ?d = "4 * (nweights ?net + nneurons ?net)"
  from ok have a: "a < length m"
    and len: "length (extra ?net) = unat (nweights ?net) + unat (nneurons ?net)"
    and bytes: "4 * length (extra ?net) < 2 ^ 64"
    by (simp_all add: nn_ffnet_ok_def)
  from fits have fit: "unat sizeof_net + 4 * length (extra ?net) < 2 ^ 64"
    by (simp add: block_fits_def)
  have "nweights ?net + nneurons ?net = of_nat (length (extra ?net))"
    by (simp add: len)
  then have "?d = of_nat (4 * length (extra ?net))"
    by simp
  then have u: "unat ?d = 4 * length (extra ?net)"
    using bytes by (simp add: unat_of_nat del: of_nat_mult of_nat_add)
  have "sizeof_net + ?d = of_nat (unat sizeof_net + unat ?d)"
    by (simp only: of_nat_add of_nat_unat_size_t)
  then have us: "unat (sizeof_net + ?d) = unat sizeof_net + 4 * length (extra ?net)"
    using fit u by (simp only: unat_of_nat) simp
  then have p: "sizeof_net < sizeof_net + ?d"
    using pos by (simp add: word_less_nat_alt)
  show ?thesis
    unfolding nn_ffnet_copy_def Let_def
    using a us p by (simp add: nn_ffnet_set_pointers_def ptr_add_def)
qed

text \<open>A network without data is not copied: the assertion fails.\<close>

lemma nn_ffnet_copy_no_data:
  assumes "nweights (m ! a) + nneurons (m ! a) = 0"
  shows "nn_ffnet_copy sizeof_net m a = None"
  unfolding nn_ffnet_copy_def Let_def assms by simp

lemma store_other_block:
  "store m p v = Some m2 \<Longrightarrow> fst p \<noteq> a \<Longrightarrow> m2 ! a = m ! a \<and> length m2 = length m"
  by (auto simp: store_def split: if_splits)

lemma randomize_loop_other_block:
  "randomize_loop rand_max rnd w i n m = Some m2 \<Longrightarrow> fst w \<noteq> a \<Longrightarrow>
   m2 ! a = m ! a \<and> length m2 = length m"
proof (induction n arbitrary: i m)
  case 0
  then show ?case by simp
next
  case (Suc n)
  from Suc.prems(1) obtain v m1 where
    s: "store m (ptr_add w i) v = Some m1" and
    r: "randomize_loop rand_max rnd w (Suc i) n m1 = Some m2"
    by (auto split: option.splits)
  have "m1 ! a = m ! a \<and> length m1 = length m"
    using store_other_block [OF s] Suc.prems(2) by (simp add: ptr_add_def)
  then show ?case using Suc.IH [OF r Suc.prems(2)] by simp
qed

text \<open>
  C7. Take a network as \<open>nn_ffnet_create\<close> lays it out, with at least one float of
  data. Its copy is a new block: every block of the memory, the original among them, is
  as it was before; the new block holds the original's struct and data, float for float,
  with the two pointers set into the new block. For identical inputs the run of the copy
  returns the outputs that the run of the original returns, before the copy was made and
  after (or neither returns). After a write through the copy's weight pointer, or after
  \<open>nn_ffnet_randomize\<close> of the copy, every run of the original returns what it would
  have returned before; and after a write through the original's weight pointer, every
  run of the copy returns what it would have returned before.
\<close>

theorem nn_ffnet_copy_independent:
  assumes "nn_ffnet_ok m a" and "0 < length (extra (m ! a))"
    and "block_fits sizeof_net (m ! a)"
  shows "\<exists>m1 c. nn_ffnet_copy sizeof_net m a = Some (m1, c) \<and> c \<noteq> a
           \<and> c = length m \<and> length m1 = length m + 1
           \<and> (\<forall>b<length m. m1 ! b = m ! b) \<and> m1 ! a = m ! a
           \<and> m1 ! c = (m ! a)\<lparr>weight := (c, 0), output' := (c, unat (nweights (m ! a)))\<rparr>
           \<and> extra (m1 ! c) = extra (m ! a)
           \<and> fst (weight (m1 ! c)) = c \<and> fst (output' (m1 ! c)) = c
           \<and> run_outputs m1 c inputs n = run_outputs m1 a inputs n
           \<and> run_outputs m1 c inputs n = run_outputs m a inputs n
           \<and> (\<forall>i v m2 inputs' n'. store m1 (ptr_add (weight (m1 ! c)) i) v = Some m2
                \<longrightarrow> run_outputs m2 a inputs' n' = run_outputs m1 a inputs' n'
                    \<and> run_outputs m2 a inputs' n' = run_outputs m a inputs' n')
           \<and> (\<forall>rand_max rnd m2 inputs' n'. nn_ffnet_randomize rand_max rnd m1 c = Some m2
                \<longrightarrow> run_outputs m2 a inputs' n' = run_outputs m1 a inputs' n'
                    \<and> run_outputs m2 a inputs' n' = run_outputs m a inputs' n')
           \<and> (\<forall>i v m2 inputs' n'. store m1 (ptr_add (weight (m1 ! a)) i) v = Some m2
                \<longrightarrow> run_outputs m2 c inputs' n' = run_outputs m1 c inputs' n')"
proof -
  let ?c = "length m"
  let ?new = "(m ! a)\<lparr>weight := (?c, 0), output' := (?c, unat (nweights (m ! a)))\<rparr>"
  let ?m1 = "m @ [?new]"
  from assms(1) have a: "a < length m" by (simp add: nn_ffnet_ok_def)
  have c: "nn_ffnet_copy sizeof_net m a = Some (?m1, ?c)"
    by (rule nn_ffnet_copy_ok [OF assms])
  have ma: "?m1 ! a = m ! a" using a by (simp add: nth_append)
  have mc: "?m1 ! ?c = ?new" by simp
  have oka: "nn_ffnet_ok ?m1 a"
    using a ma by (intro nn_ffnet_ok_block [OF assms(1)]) simp_all
  have okc: "nn_ffnet_ok ?m1 ?c"
    using assms(1) by (simp add: nn_ffnet_ok_def)
  have before: "run_outputs ?m1 a inputs' n' = run_outputs m a inputs' n'" for inputs' n'
  proof -
    have "run_outputs ?m1 a inputs' n' = block_outputs (?m1 ! a) inputs' n'"
      by (rule run_outputs_block [OF oka])
    also have "\<dots> = block_outputs (m ! a) inputs' n'"
      by (simp only: ma)
    also have "\<dots> = run_outputs m a inputs' n'"
      by (rule run_outputs_block [OF assms(1), symmetric])
    finally show ?thesis .
  qed
  have same: "run_outputs ?m1 ?c inputs n = run_outputs ?m1 a inputs n"
  proof -
    have "run_outputs ?m1 ?c inputs n = block_outputs (?m1 ! ?c) inputs n"
      by (rule run_outputs_block [OF okc])
    also have "\<dots> = block_outputs ?new inputs n"
      by (simp only: mc)
    also have "\<dots> = block_outputs (m ! a) inputs n"
      by (rule block_outputs_pointers)
    also have "\<dots> = block_outputs (?m1 ! a) inputs n"
      by (simp only: ma)
    also have "\<dots> = run_outputs ?m1 a inputs n"
      by (rule run_outputs_block [OF oka, symmetric])
    finally show ?thesis .
  qed
  have frame: "run_outputs m2 a inputs' n' = run_outputs ?m1 a inputs' n'"
    if "m2 ! a = ?m1 ! a" and "length m2 = length ?m1" for m2 inputs' n'
  proof -
    have "nn_ffnet_ok m2 a"
      using that a by (intro nn_ffnet_ok_block [OF oka]) simp_all
    then have "run_outputs m2 a inputs' n' = block_outputs (m2 ! a) inputs' n'"
      by (rule run_outputs_block)
    also have "\<dots> = block_outputs (?m1 ! a) inputs' n'"
      by (simp only: that(1))
    also have "\<dots> = run_outputs ?m1 a inputs' n'"
      by (rule run_outputs_block [OF oka, symmetric])
    finally show ?thesis .
  qed
  have st: "run_outputs m2 a inputs' n' = run_outputs ?m1 a inputs' n'"
    if "store ?m1 (ptr_add (weight (?m1 ! ?c)) i) v = Some m2" for i v m2 inputs' n'
    using store_other_block [OF that, of a] a by (intro frame) (simp_all add: ptr_add_def)
  have rz: "run_outputs m2 a inputs' n' = run_outputs ?m1 a inputs' n'"
    if "nn_ffnet_randomize rand_max rnd ?m1 ?c = Some m2" for rand_max rnd m2 inputs' n'
  proof -
    from that have "randomize_loop rand_max rnd (weight (?m1 ! ?c)) 0
        (unat (nweights (?m1 ! ?c))) ?m1 = Some m2"
      by (simp add: nn_ffnet_randomize_def split: if_splits)
    from randomize_loop_other_block [OF this, of a] a show ?thesis
      by (intro frame) simp_all
  qed
  have wa: "fst (weight (?m1 ! a)) = a"
    using assms(1) ma by (simp add: nn_ffnet_ok_def)
  have other: "run_outputs m2 ?c inputs' n' = run_outputs ?m1 ?c inputs' n'"
    if "store ?m1 (ptr_add (weight (?m1 ! a)) i) v = Some m2" for i v m2 inputs' n'
  proof -
    have "fst (ptr_add (weight (?m1 ! a)) i) \<noteq> ?c"
      using wa a by (simp add: ptr_add_def)
    from store_other_block [OF that this]
    have k: "m2 ! ?c = ?m1 ! ?c" "length m2 = length ?m1" by simp_all
    then have "nn_ffnet_ok m2 ?c"
      by (intro nn_ffnet_ok_block [OF okc]) simp_all
    then have "run_outputs m2 ?c inputs' n' = block_outputs (m2 ! ?c) inputs' n'"
      by (rule run_outputs_block)
    also have "\<dots> = block_outputs (?m1 ! ?c) inputs' n'"
      by (simp only: k(1))
    also have "\<dots> = run_outputs ?m1 ?c inputs' n'"
      by (rule run_outputs_block [OF okc, symmetric])
    finally show ?thesis .
  qed
  show ?thesis
  proof (intro exI conjI allI impI)
    show "nn_ffnet_copy sizeof_net m a = Some (?m1, ?c)" by (rule c)
    show "?m1 ! a = m ! a" by (rule ma)
    show "run_outputs m2 ?c inputs' n' = run_outputs ?m1 ?c inputs' n'"
      if "store ?m1 (ptr_add (weight (?m1 ! a)) i) v = Some m2" for i v m2 inputs' n'
      using that by (rule other)
    show "?c \<noteq> a" using a by simp
    show "?c = length m" by simp
    show "length ?m1 = length m + 1" by simp
    show "?m1 ! b = m ! b" if "b < length m" for b using that by (simp add: nth_append)
    show "?m1 ! ?c = ?new" by (rule mc)
    show "extra (?m1 ! ?c) = extra (m ! a)" by simp
    show "fst (weight (?m1 ! ?c)) = ?c" by simp
    show "fst (output' (?m1 ! ?c)) = ?c" by simp
    show "run_outputs ?m1 ?c inputs n = run_outputs ?m1 a inputs n" by (rule same)
    show "run_outputs ?m1 ?c inputs n = run_outputs m a inputs n"
      using same before by simp
    show "run_outputs m2 a inputs' n' = run_outputs ?m1 a inputs' n'"
      if "store ?m1 (ptr_add (weight (?m1 ! ?c)) i) v = Some m2" for i v m2 inputs' n'
      using that by (rule st)
    show "run_outputs m2 a inputs' n' = run_outputs m a inputs' n'"
      if "store ?m1 (ptr_add (weight (?m1 ! ?c)) i) v = Some m2" for i v m2 inputs' n'
      using st [OF that] before by simp
    show "run_outputs m2 a inputs' n' = run_outputs ?m1 a inputs' n'"
      if "nn_ffnet_randomize rand_max rnd ?m1 ?c = Some m2" for rand_max rnd m2 inputs' n'
      using that by (rule rz)
    show "run_outputs m2 a inputs' n' = run_outputs m a inputs' n'"
      if "nn_ffnet_randomize rand_max rnd ?m1 ?c = Some m2" for rand_max rnd m2 inputs' n'
      using rz [OF that] before by simp
  qed
qed

theorem nn_ffnet_copy_independent_witness:
  "\<exists>m1 c. nn_ffnet_copy 80 [net_1_0_1_0] 0 = Some (m1, c) \<and> c \<noteq> 0
     \<and> m1 ! 0 = net_1_0_1_0 \<and> extra (m1 ! c) = [Num 0, Num 0, Num 0, Num 0]
     \<and> run_outputs m1 c [Num 3] 1 = run_outputs m1 0 [Num 3] 1
     \<and> run_outputs m1 0 [Num 3] 1 = Some [Some (Num (1 / 2))]"
proof -
  let ?m = "[net_1_0_1_0]"
  have ok: "nn_ffnet_ok ?m 0"
    by (simp add: nn_ffnet_ok_def net_1_0_1_0_def)
  have pos: "0 < length (extra (?m ! 0))"
    by (simp add: net_1_0_1_0_def)
  have fits: "block_fits 80 (?m ! 0)"
    by (simp add: block_fits_def net_1_0_1_0_def)
  from nn_ffnet_copy_independent [OF ok pos fits, of "[Num 3]" 1]
  obtain m1 c where c: "nn_ffnet_copy 80 ?m 0 = Some (m1, c)" and n: "c \<noteq> 0"
    and k: "\<forall>b<length ?m. m1 ! b = ?m ! b" and x: "extra (m1 ! c) = extra (?m ! 0)"
    and l: "length m1 = length ?m + 1"
    and s: "run_outputs m1 c [Num 3] 1 = run_outputs m1 0 [Num 3] 1"
    by blast
  have f: "unat (4 * ninputs (?m ! 0)) div 4 = Suc 0" "unat (nweights (?m ! 0)) = Suc (Suc 0)"
    "unat (ninputs (?m ! 0)) = Suc 0" "unat (nhidden_layers (?m ! 0)) = 0"
    "unat (noutputs (?m ! 0)) = Suc 0" "nhidden_layers (?m ! 0) = 0"
    "extra (?m ! 0) = [Num 0, Num 0, Num 0, Num 0]" "bias (?m ! 0) = Num (- 1)"
    "output_activation (?m ! 0) = NN_ACTIVATION_SIGMOID"
    by (simp_all add: net_1_0_1_0_def)
  have b: "block_run (?m ! 0) [Num 3]
           = Some ([Num 0, Num 0, Num 3, Num (1 / 2)], Suc (Suc (Suc 0)), Suc (Suc 0),
               Suc (Suc (Suc (Suc 0))))"
    unfolding block_run_def Let_def f by (simp add: nn_sigmoid_def fgt_def)
  have o: "block_outputs (?m ! 0) [Num 3] 1 = Some [Some (Num (1 / 2))]"
    unfolding block_outputs_def b f by (simp add: net_1_0_1_0_def)
  from k l have m1: "m1 ! 0 = ?m ! 0" and "0 < length m1"
    by simp_all
  then have "nn_ffnet_ok m1 0"
    by (intro nn_ffnet_ok_block [OF ok]) simp_all
  then have "run_outputs m1 0 [Num 3] 1 = Some [Some (Num (1 / 2))]"
    using o by (simp only: run_outputs_block m1)
  with c n s m1 x f(7) show ?thesis by auto
qed

section \<open>A fresh network\<close>

lemma nn_ffnet_create_defaults_always:
  fixes ic hc oc lc :: size_t
  assumes "nn_ffnet_create sizeof_net m ic hc oc lc = Some (m1, a)"
  shows "hidden_activation (m1 ! a) = NN_ACTIVATION_SIGMOID
         \<and> output_activation (m1 ! a) = NN_ACTIVATION_SIGMOID \<and> bias (m1 ! a) = Num (- 1)
         \<and> (\<forall>x\<in>set (extra (m1 ! a)). x = Num 0)"
  using assms
  by (auto simp: nn_ffnet_create_def nn_ffnet_set_pointers_def Let_def split: if_splits)

text \<open>
  C10, as amended. Every network that \<open>nn_ffnet_create\<close> returns has the logistic
  sigmoid as both activation selectors, the bias -1, and all its floats, the weights and
  the neurons, zero. For a valid topology whose block, the struct and four bytes for
  every weight and every neuron, fits a \<open>size_t\<close>, \<open>nn_ffnet_create\<close> does return a
  network, and its run on inputs that are all numbers (no NaN, no infinity) returns with
  every output 0.5.
\<close>

theorem nn_ffnet_create_defaults:
  fixes ic hc oc lc :: size_t
  shows "(\<forall>m1 a. nn_ffnet_create sizeof_net m ic hc oc lc = Some (m1, a)
            \<longrightarrow> hidden_activation (m1 ! a) = NN_ACTIVATION_SIGMOID
                \<and> output_activation (m1 ! a) = NN_ACTIVATION_SIGMOID
                \<and> bias (m1 ! a) = Num (- 1)
                \<and> (\<forall>x\<in>set (extra (m1 ! a)). x = Num 0))
         \<and> (0 < ic \<and> 0 < oc \<and> (0 < hc) = (0 < lc)
             \<and> unat sizeof_net
                 + 4 * (weight_count (unat ic) (unat hc) (unat oc) (unat lc)
                        + neuron_count (unat ic) (unat hc) (unat oc) (unat lc)) < 2 ^ 64
             \<longrightarrow> (\<exists>net. nn_ffnet_create sizeof_net m ic hc oc lc = Some (m @ [net], length m)
                    \<and> (unat ic \<le> length inputs \<and> (\<forall>x\<in>set inputs. is_number x)
                        \<longrightarrow> (\<exists>m' ret.
                               nn_ffnet_run (m @ [net]) (length m) inputs = Some (m', ret)
                               \<and> load_floats m' ret (unat oc)
                                   = replicate (unat oc) (Some (Num (1 / 2)))))))"
proof -
  have 1: "hidden_activation (m1 ! a) = NN_ACTIVATION_SIGMOID
           \<and> output_activation (m1 ! a) = NN_ACTIVATION_SIGMOID \<and> bias (m1 ! a) = Num (- 1)
           \<and> (\<forall>x\<in>set (extra (m1 ! a)). x = Num 0)"
    if "nn_ffnet_create sizeof_net m ic hc oc lc = Some (m1, a)" for m1 a
    using that by (rule nn_ffnet_create_defaults_always)
  have 2: "\<exists>net. nn_ffnet_create sizeof_net m ic hc oc lc = Some (m @ [net], length m)
             \<and> (unat ic \<le> length inputs \<and> (\<forall>x\<in>set inputs. is_number x)
                 \<longrightarrow> (\<exists>m' ret. nn_ffnet_run (m @ [net]) (length m) inputs = Some (m', ret)
                        \<and> load_floats m' ret (unat oc)
                            = replicate (unat oc) (Some (Num (1 / 2)))))"
    if v: "0 < ic" "0 < oc" "(0 < hc) = (0 < lc)"
      and fit: "unat sizeof_net
                + 4 * (weight_count (unat ic) (unat hc) (unat oc) (unat lc)
                       + neuron_count (unat ic) (unat hc) (unat oc) (unat lc)) < 2 ^ 64"
  proof -
    obtain net where c: "nn_ffnet_create sizeof_net m ic hc oc lc = Some (m @ [net], length m)"
      and ok: "nn_ffnet_ok (m @ [net]) (length m)" and t: "topology_ok net"
      and f: "ninputs net = ic" "noutputs net = oc"
      using nn_ffnet_create_ok [OF v fit, of m] by blast
    let ?m = "m @ [net]" and ?a = "length m"
    from 1 [OF c] have d: "hidden_activation net = NN_ACTIVATION_SIGMOID"
      "output_activation net = NN_ACTIVATION_SIGMOID" "bias net = Num (- 1)"
      "\<forall>x\<in>set (extra net). x = Num 0"
      by simp_all
    have "\<exists>m' ret. nn_ffnet_run ?m ?a inputs = Some (m', ret)
            \<and> load_floats m' ret (unat oc) = replicate (unat oc) (Some (Num (1 / 2)))"
      if inp: "unat ic \<le> length inputs" and fin: "\<forall>x\<in>set inputs. is_number x"
    proof -
      have z: "\<forall>i<unat (nweights (?m ! ?a)).
                 load ?m (ptr_add (weight (?m ! ?a)) i) = Some (Num 0)"
        using ok d(4) by (auto simp: nn_ffnet_ok_def load_def ptr_add_def)
      have "\<exists>m' ret. nn_ffnet_run ?m ?a inputs = Some (m', ret)
             \<and> load_floats m' ret (unat (noutputs (?m ! ?a)))
                 = replicate (unat (noutputs (?m ! ?a)))
                     (nn_activate (output_activation (?m ! ?a)) (Num 0))"
        using t d f inp fin z by (intro nn_ffnet_run_zero [OF ok, of "- 1"]) simp_all
      then show ?thesis
        using d f nn_activate_zero(1) by simp
    qed
    with c show ?thesis by blast
  qed
  from 1 2 show ?thesis by blast
qed

theorem nn_ffnet_create_defaults_witness:
  "\<exists>net. nn_ffnet_create 80 [] 2 3 1 2 = Some ([] @ [net], length ([] :: nn_memory))
     \<and> hidden_activation net = NN_ACTIVATION_SIGMOID
     \<and> output_activation net = NN_ACTIVATION_SIGMOID \<and> bias net = Num (- 1)
     \<and> (\<forall>x\<in>set (extra net). x = Num 0)
     \<and> (\<exists>m' ret. nn_ffnet_run ([] @ [net]) 0 [Num 1, Num (- 2)] = Some (m', ret)
          \<and> load_floats m' ret 1 = [Some (Num (1 / 2))])"
proof -
  note t = nn_ffnet_create_defaults
             [where ic = 2 and oc = 1 and hc = 3 and lc = 2 and sizeof_net = 80
                and inputs = "[Num 1, Num (- 2)]" and m = "[]"]
  from t [THEN conjunct2] obtain net where
    c: "nn_ffnet_create 80 [] 2 3 1 2 = Some ([] @ [net], length ([] :: nn_memory))"
    and r: "\<exists>m' ret. nn_ffnet_run ([] @ [net]) 0 [Num 1, Num (- 2)] = Some (m', ret)
              \<and> load_floats m' ret 1 = [Some (Num (1 / 2))]"
    by (auto simp: weight_count_def neuron_count_def)
  from t [THEN conjunct1, THEN spec, THEN spec, THEN mp, OF c]
  have "hidden_activation net = NN_ACTIVATION_SIGMOID
     \<and> output_activation net = NN_ACTIVATION_SIGMOID \<and> bias net = Num (- 1)
     \<and> (\<forall>x\<in>set (extra net). x = Num 0)"
    by simp
  with c r show ?thesis by blast
qed

text \<open>
  C10 as stated fails on an input that is not a number: the first run of the fresh
  network \<open>nn_ffnet_create(1, 0, 1, 0)\<close> on a NaN input yields NaN, not 0.5.
\<close>

theorem nn_ffnet_create_defaults_counterexample:
  "nn_ffnet_create 80 [] 1 0 1 0 = Some ([net_1_0_1_0], 0)
   \<and> nn_ffnet_run [net_1_0_1_0] 0 [NaN]
     = Some ([net_1_0_1_0\<lparr>extra := [Num 0, Num 0, NaN, NaN]\<rparr>], (0, 3))
   \<and> load_floats [net_1_0_1_0\<lparr>extra := [Num 0, Num 0, NaN, NaN]\<rparr>] (0, 3) 1 = [Some NaN]"
proof -
  let ?m = "[net_1_0_1_0]"
  have c: "nn_ffnet_create 80 [] 1 0 1 0 = Some ([net_1_0_1_0], 0)"
  proof -
    have "replicate 4 (Num 0) = [Num 0, Num 0, Num 0, Num 0]"
      by (simp add: numeral_eq_Suc)
    then show ?thesis
      by (simp add: nn_ffnet_create_def nn_ffnet_set_pointers_def net_1_0_1_0_def
          ptr_add_def)
  qed
  have ok: "nn_ffnet_ok ?m 0"
    by (simp add: nn_ffnet_ok_def net_1_0_1_0_def)
  have f: "unat (4 * ninputs (?m ! 0)) div 4 = Suc 0" "unat (nweights (?m ! 0)) = Suc (Suc 0)"
    "unat (ninputs (?m ! 0)) = Suc 0" "unat (nhidden_layers (?m ! 0)) = 0"
    "unat (noutputs (?m ! 0)) = Suc 0" "nhidden_layers (?m ! 0) = 0"
    "extra (?m ! 0) = [Num 0, Num 0, Num 0, Num 0]" "bias (?m ! 0) = Num (- 1)"
    "output_activation (?m ! 0) = NN_ACTIVATION_SIGMOID"
    by (simp_all add: net_1_0_1_0_def)
  have b: "block_run (?m ! 0) [NaN]
           = Some ([Num 0, Num 0, NaN, NaN], Suc (Suc (Suc 0)), Suc (Suc 0),
               Suc (Suc (Suc (Suc 0))))"
    unfolding block_run_def Let_def f by (simp add: nn_sigmoid_def fgt_def)
  have "block_run (?m ! 0) [NaN]
     = Some ([Num 0, Num 0, NaN, NaN], 3, unat (nweights (?m ! 0)),
         unat (nweights (?m ! 0)) + unat (nneurons (?m ! 0)))"
    using b unfolding f by (simp add: net_1_0_1_0_def)
  from nn_ffnet_run_block(2) [OF ok this]
  have "nn_ffnet_run ?m 0 [NaN]
     = Some ([net_1_0_1_0\<lparr>extra := [Num 0, Num 0, NaN, NaN]\<rparr>], (0, 3))"
    by (simp add: with_extra_def)
  moreover have
    "load_floats [net_1_0_1_0\<lparr>extra := [Num 0, Num 0, NaN, NaN]\<rparr>] (0, 3) 1 = [Some NaN]"
    by (simp add: load_floats_def load_def ptr_add_def)
  ultimately show ?thesis using c by simp
qed

section \<open>Comparing floats\<close>

lemma flt_trans: "flt x y \<Longrightarrow> flt y z \<Longrightarrow> flt x z"
  by (cases x; cases y; cases z) simp_all

lemma flt_irrefl: "\<not> flt x x"
  by (cases x) simp_all

lemma flt_not_NaN: "flt x y \<Longrightarrow> x \<noteq> NaN \<and> y \<noteq> NaN"
  by (cases x; cases y) simp_all

lemma flt_linear: "x \<noteq> NaN \<Longrightarrow> y \<noteq> NaN \<Longrightarrow> flt x y \<or> x = y \<or> flt y x"
  by (cases x; cases y) auto


section \<open>The worst genome\<close>

lemma find_worst_inv_step:
  assumes inv: "find_worst_inv config g w0 i (found, w, wfit)"
  shows "find_worst_inv config g w0 (Suc i)
           (if flt (fitness (g i)) wfit \<and> genome_minimum_ticks_alive config < time_alive (g i)
            then (True, i, fitness (g i)) else (found, w, wfit))"
proof (cases "flt (fitness (g i)) wfit \<and> genome_minimum_ticks_alive config < time_alive (g i)")
  case True
  then have lt: "flt (fitness (g i)) wfit" and age: "genome_minimum_ticks_alive config < time_alive (g i)"
    by simp_all
  have wfmax: "wfit = FLT_MAX \<or> flt wfit FLT_MAX"
    using inv by (auto simp: find_worst_inv_def worst_candidate_def split: if_splits)
  then have c: "worst_candidate config (g i)"
    using lt age flt_trans by (auto simp: worst_candidate_def)
  have a: "\<not> flt (fitness (g j)) (fitness (g i))" if "j < Suc i" "worst_candidate config (g j)" for j
  proof (cases "j = i")
    case True
    then show ?thesis by (simp add: flt_irrefl)
  next
    case False
    with that have j: "j < i" by simp
    show ?thesis
    proof (cases found)
      case True
      then have "\<not> flt (fitness (g j)) wfit"
        using inv j that(2) by (auto simp: find_worst_inv_def)
      then show ?thesis using lt flt_trans by blast
    next
      case False
      then show ?thesis using inv j that(2) by (auto simp: find_worst_inv_def)
    qed
  qed
  have b: "flt (fitness (g i)) (fitness (g j))" if "j < i" "worst_candidate config (g j)" for j
  proof (cases found)
    case True
    then have n: "\<not> flt (fitness (g j)) wfit"
      using inv that by (auto simp: find_worst_inv_def)
    have "fitness (g j) \<noteq> NaN" "wfit \<noteq> NaN"
      using that(2) lt flt_not_NaN by (auto simp: worst_candidate_def)
    then have "wfit = fitness (g j) \<or> flt wfit (fitness (g j))"
      using n flt_linear by blast
    then show ?thesis using lt flt_trans by blast
  next
    case False
    then show ?thesis using inv that by (auto simp: find_worst_inv_def)
  qed
  show ?thesis
    using True c a b by (auto simp: find_worst_inv_def)
next
  case False
  have "\<not> flt (fitness (g i)) wfit" if "found" "worst_candidate config (g i)"
    using False that by (simp add: worst_candidate_def)
  moreover have "\<not> worst_candidate config (g i)" if "\<not> found"
    using False that inv by (auto simp: find_worst_inv_def worst_candidate_def)
  ultimately show ?thesis
    using False inv by (auto simp: find_worst_inv_def less_Suc_eq)
qed

lemma find_worst_loop_inv:
  assumes valid: "\<forall>j<length (genomes p). genome_at (genome_mem p) (genomes p ! j) = Some (g j)"
  shows "i + n = length (genomes p) \<Longrightarrow> find_worst_inv (conf p) g w0 i st \<Longrightarrow>
         \<exists>st'. find_worst_loop p i n st = Some st'
               \<and> find_worst_inv (conf p) g w0 (length (genomes p)) st'"
proof (induction n arbitrary: i st)
  case 0
  then show ?case by simp
next
  case (Suc n)
  obtain found w wfit where st: "st = (found, w, wfit)" by (cases st)
  let ?st = "if flt (fitness (g i)) wfit
                \<and> genome_minimum_ticks_alive (conf p) < time_alive (g i)
             then (True, i, fitness (g i)) else (found, w, wfit)"
  have i: "i < length (genomes p)" using Suc.prems(1) by simp
  have g: "genome_at (genome_mem p) (genomes p ! i) = Some (g i)"
    using valid i by simp
  have "find_worst_inv (conf p) g w0 (Suc i) ?st"
    using Suc.prems(2) unfolding st by (rule find_worst_inv_step)
  then have "\<exists>st'. find_worst_loop p (Suc i) n ?st = Some st'
               \<and> find_worst_inv (conf p) g w0 (length (genomes p)) st'"
    using Suc.prems(1) by (intro Suc.IH) simp_all
  moreover have "find_worst_loop p i (Suc n) st = find_worst_loop p (Suc i) n ?st"
    using i g by (simp add: st)
  ultimately show ?case by simp
qed


text \<open>
  C1, as amended. Let \<open>g j\<close> be the genome of slot \<open>j\<close>. \<open>neat_find_worst_fitness\<close>
  returns; it finds a genome exactly when some slot holds a candidate, a genome whose
  \<open>time_alive\<close> strictly exceeds the configured minimum and whose fitness is below
  \<open>FLT_MAX\<close>; the slot it picks holds a candidate, no candidate has a smaller fitness,
  and every candidate in an earlier slot has a strictly greater one; and when no slot
  holds a candidate, it leaves \<open>*worst_genome\<close> as it was and \<open>neat_epoch\<close> returns the
  population unchanged.
\<close>

theorem neat_find_worst_fitness_minimum:
  assumes "\<forall>j<ngenomes p. genome_at (genome_mem p) (genomes p ! j) = Some (g j)"
  shows "(\<exists>found w. neat_find_worst_fitness p w0 = Some (found, w)
            \<and> found = (\<exists>i<ngenomes p. worst_candidate (conf p) (g i))
            \<and> (found \<longrightarrow> w < ngenomes p \<and> worst_candidate (conf p) (g w)
                  \<and> (\<forall>j<ngenomes p. worst_candidate (conf p) (g j)
                        \<longrightarrow> \<not> flt (fitness (g j)) (fitness (g w)))
                  \<and> (\<forall>j<w. worst_candidate (conf p) (g j)
                        \<longrightarrow> flt (fitness (g w)) (fitness (g j))))
            \<and> (\<not> found \<longrightarrow> w = w0))
         \<and> ((\<forall>i<ngenomes p. \<not> worst_candidate (conf p) (g i))
              \<longrightarrow> neat_epoch K rand_max r1 r2 p = Some p)"
proof -
  have valid: "\<forall>j<length (genomes p). genome_at (genome_mem p) (genomes p ! j) = Some (g j)"
    using assms by (simp add: ngenomes_def)
  have loop: "\<exists>st'. find_worst_loop p 0 (ngenomes p) (False, w, FLT_MAX) = Some st'
               \<and> find_worst_inv (conf p) g w (length (genomes p)) st'" for w
    by (rule find_worst_loop_inv [OF valid]) (simp_all add: ngenomes_def find_worst_inv_def)
  have 1: "\<exists>found w'. neat_find_worst_fitness p w = Some (found, w')
            \<and> found = (\<exists>i<ngenomes p. worst_candidate (conf p) (g i))
            \<and> (found \<longrightarrow> w' < ngenomes p \<and> worst_candidate (conf p) (g w')
                  \<and> (\<forall>j<ngenomes p. worst_candidate (conf p) (g j)
                        \<longrightarrow> \<not> flt (fitness (g j)) (fitness (g w')))
                  \<and> (\<forall>j<w'. worst_candidate (conf p) (g j)
                        \<longrightarrow> flt (fitness (g w')) (fitness (g j))))
            \<and> (\<not> found \<longrightarrow> w' = w)" for w
  proof -
    from loop [of w] obtain found w' wfit where
      l: "find_worst_loop p 0 (ngenomes p) (False, w, FLT_MAX) = Some (found, w', wfit)"
      and inv: "find_worst_inv (conf p) g w (length (genomes p)) (found, w', wfit)"
      by (metis prod_cases3)
    have r: "neat_find_worst_fitness p w = Some (found, w')"
      using l by (simp add: neat_find_worst_fitness_def)
    show ?thesis
    proof (cases found)
      case True
      then show ?thesis
        using r inv by (auto simp: find_worst_inv_def ngenomes_def)
    next
      case False
      then show ?thesis
        using r inv by (auto simp: find_worst_inv_def ngenomes_def)
    qed
  qed
  have 2: "neat_epoch K rand_max r1 r2 p = Some p"
    if "\<forall>i<ngenomes p. \<not> worst_candidate (conf p) (g i)"
  proof -
    from 1 [of 0] that obtain w' where "neat_find_worst_fitness p 0 = Some (False, w')"
      by auto
    then show ?thesis by (simp add: neat_epoch_def)
  qed
  from 1 [of w0] 2 show ?thesis by blast
qed

theorem neat_find_worst_fitness_minimum_witness:
  "neat_find_worst_fitness pop_example 7 = Some (True, 1)"
proof -
  have v: "\<forall>j<ngenomes pop_example.
             genome_at (genome_mem pop_example) (genomes pop_example ! j)
             = Some (genome_example j)"
    by (simp add: pop_example_def ngenomes_def genome_at_def genome_example_def
        less_Suc_eq numeral_3_eq_3 numeral_2_eq_2)
  have n: "ngenomes pop_example = Suc (Suc (Suc 0))"
    by (simp add: pop_example_def ngenomes_def)
  have c: "worst_candidate (conf pop_example) (genome_example j)" for j
    by (simp add: worst_candidate_def pop_example_def config_example_def genome_example_def
        FLT_MAX_def)
  from neat_find_worst_fitness_minimum [OF v, of 7 spec_collaborators 1 0 0]
  obtain found w where r: "neat_find_worst_fitness pop_example 7 = Some (found, w)"
    and f: "found = (\<exists>i<ngenomes pop_example. worst_candidate (conf pop_example) (genome_example i))"
    and m: "found \<longrightarrow> w < ngenomes pop_example
                  \<and> (\<forall>j<ngenomes pop_example. worst_candidate (conf pop_example) (genome_example j)
                        \<longrightarrow> \<not> flt (fitness (genome_example j)) (fitness (genome_example w)))
                  \<and> (\<forall>j<w. worst_candidate (conf pop_example) (genome_example j)
                        \<longrightarrow> flt (fitness (genome_example w)) (fitness (genome_example j)))"
    by blast
  have found: found using f c n by auto
  then have w3: "w < Suc (Suc (Suc 0))"
    and a: "\<forall>j<Suc (Suc (Suc 0)). \<not> flt (fitness (genome_example j)) (fitness (genome_example w))"
    and b: "\<forall>j<w. flt (fitness (genome_example w)) (fitness (genome_example j))"
    using m c n by auto
  have "w \<noteq> 0"
  proof
    assume "w = 0"
    moreover have "\<not> flt (fitness (genome_example (Suc 0))) (fitness (genome_example w))"
      using a by simp
    ultimately show False by (simp add: genome_example_def)
  qed
  moreover have "w \<noteq> Suc (Suc 0)"
  proof
    assume w: "w = Suc (Suc 0)"
    then have "flt (fitness (genome_example w)) (fitness (genome_example (Suc 0)))"
      using b by simp
    then show False using w by (simp add: genome_example_def)
  qed
  ultimately have "w = 1" using w3 by (auto simp: less_Suc_eq)
  with r found show ?thesis by simp
qed

text \<open>
  C1 as stated fails: the one genome of \<open>pop_flt_max\<close> is older than the minimum, so
  it is a candidate in the claim's sense and the one of minimum fitness, but its fitness
  \<open>FLT_MAX\<close> is not below the initial \<open>worst_fitness\<close>: nothing is found, and the epoch
  does nothing.
\<close>

theorem neat_find_worst_fitness_counterexample:
  "genome_at (genome_mem pop_flt_max) (genomes pop_flt_max ! 0)
     = Some \<lparr>fitness = FLT_MAX, time_alive = 1, body = 1\<rparr>
   \<and> genome_minimum_ticks_alive (conf pop_flt_max) < 1
   \<and> neat_find_worst_fitness pop_flt_max 0 = Some (False, 0)
   \<and> neat_epoch spec_collaborators 32767 0 0 pop_flt_max = Some pop_flt_max"
proof -
  have n: "ngenomes pop_flt_max = Suc 0"
    by (simp add: pop_flt_max_def ngenomes_def)
  have f: "neat_find_worst_fitness pop_flt_max 0 = Some (False, 0)"
    unfolding neat_find_worst_fitness_def n
    by (simp add: pop_flt_max_def genome_at_def config_example_def FLT_MAX_def)
  then show ?thesis
    by (simp add: neat_epoch_def) (simp add: pop_flt_max_def genome_at_def config_example_def)
qed

section \<open>Creating a population\<close>

lemma reset_genomes_loop_result:
  assumes "genome_at (genome_mem p) (genomes p ! 0) = Some x" and "0 < i"
    and "i + n = length (genomes p)"
  shows "reset_genomes_loop K i n p
         = Some (p\<lparr>genomes := take i (genomes p)
                              @ [length (genome_mem p)..<length (genome_mem p) + n],
                    genome_mem := genome_mem p @ replicate n (Some (neat_genome_copy K x))\<rparr>)"
  using assms
proof (induction n arbitrary: i p)
  case 0
  then show ?case by simp
next
  case (Suc n)
  let ?M = "length (genome_mem p)"
  let ?p = "p\<lparr>genomes := (genomes p)[i := ?M],
               genome_mem := genome_mem p @ [Some (neat_genome_copy K x)]\<rparr>"
  have lt: "genomes p ! 0 < ?M"
    using Suc.prems(1) by (simp add: genome_at_def split: if_splits)
  have g: "genome_at (genome_mem ?p) (genomes ?p ! 0) = Some x"
    using Suc.prems(1,2) lt by (simp add: genome_at_def nth_append)
  have "reset_genomes_loop K (Suc i) n ?p
         = Some (?p\<lparr>genomes := take (Suc i) (genomes ?p)
                              @ [length (genome_mem ?p)..<length (genome_mem ?p) + n],
                    genome_mem := genome_mem ?p @ replicate n (Some (neat_genome_copy K x))\<rparr>)"
    using g Suc.prems by (intro Suc.IH) simp_all
  moreover have "take (Suc i) ((genomes p)[i := ?M]) = take i (genomes p) @ [?M]"
    using Suc.prems(3) by (simp add: take_Suc_conv_app_nth)
  moreover have "[?M..<?M + Suc n] = ?M # [Suc ?M..<Suc ?M + n]"
    by (simp add: upt_conv_Cons)
  ultimately show ?case
    using Suc.prems(1) by (simp add: genome_alloc_def replicate_app_Cons_same)
qed

lemma neat_create_result:
  assumes "0 < population_size config"
  shows "neat_create K config
         = Some \<lparr>solved = False, conf = config, innovation = 2,
                 genomes = [1..<Suc (population_size config)],
                 species = [neat_species_create K config 1],
                 genome_mem = None # Some (neat_genome_create K config 1)
                   # replicate (population_size config - 1)
                       (Some (neat_genome_copy K (neat_genome_create K config 1)))\<rparr>"
proof -
  let ?N = "population_size config"
  let ?c = "neat_genome_create K config 1"
  let ?p1 = "\<lparr>solved = False, conf = config, innovation = 2,
               genomes = (replicate ?N 0)[0 := 1], species = [],
               genome_mem = [None, Some ?c]\<rparr>"
  have "reset_genomes_loop K 1 (?N - 1) ?p1
         = Some \<lparr>solved = False, conf = config, innovation = 2,
                 genomes = take 1 ((replicate ?N 0)[0 := 1]) @ [2..<2 + (?N - 1)],
                 species = [],
                 genome_mem = [None, Some ?c]
                      @ replicate (?N - 1) (Some (neat_genome_copy K ?c))\<rparr>"
    using reset_genomes_loop_result [of ?p1 ?c 1 "?N - 1" K] assms
    by (simp add: genome_at_def numeral_2_eq_2 del: upt_Suc)
  moreover have "take 1 ((replicate ?N (0::nat))[0 := 1]) = [1]"
    using assms by (cases ?N) simp_all
  moreover have "[1] @ [2..<2 + (?N - 1)] = [1..<Suc ?N]"
    using assms by (cases ?N) (simp_all add: upt_conv_Cons numeral_2_eq_2 del: upt_Suc)
  ultimately have "neat_reset_genomes K
        \<lparr>solved = False, conf = config, innovation = 1, genomes = replicate ?N 0,
         species = [], genome_mem = [None]\<rparr>
      = Some \<lparr>solved = False, conf = config, innovation = 2, genomes = [1..<Suc ?N],
               species = [], genome_mem = None # Some ?c
                 # replicate (?N - 1) (Some (neat_genome_copy K ?c))\<rparr>"
    using assms
    by (simp add: neat_reset_genomes_def ngenomes_def genome_alloc_def numeral_2_eq_2)
  moreover have "[1..<Suc ?N] ! 0 = 1"
    using assms by (simp add: nth_upt del: upt_Suc)
  ultimately show ?thesis
    using assms by (simp add: neat_create_def neat_create_new_species_def del: upt_Suc)
qed

text \<open>
  C3, as amended. For a positive population size \<open>N\<close>, \<open>neat_create\<close> yields exactly
  \<open>N\<close> genomes, each slot pointing to a genome object of its own: slot 0 to the one
  freshly created base genome, every other slot to a copy of it. It creates exactly one
  species, the one \<open>neat_species_create\<close> makes of the base genome; no other genome is
  added to it.
\<close>

theorem neat_create_clones:
  assumes "0 < population_size config"
  shows "\<exists>p. neat_create K config = Some p
           \<and> ngenomes p = population_size config
           \<and> distinct (genomes p) \<and> 0 \<notin> set (genomes p)
           \<and> genome_at (genome_mem p) (genomes p ! 0) = Some (neat_genome_create K config 1)
           \<and> (\<forall>i. 0 < i \<and> i < ngenomes p
                \<longrightarrow> genome_at (genome_mem p) (genomes p ! i)
                    = Some (neat_genome_copy K (neat_genome_create K config 1)))
           \<and> species p = [neat_species_create K config (genomes p ! 0)]"
proof -
  let ?N = "population_size config"
  let ?c = "neat_genome_create K config 1"
  let ?p = "\<lparr>solved = False, conf = config, innovation = 2,
              genomes = [1..<Suc ?N], species = [neat_species_create K config 1],
              genome_mem = None # Some ?c
                # replicate (?N - 1) (Some (neat_genome_copy K ?c))\<rparr>"
  have c: "neat_create K config = Some ?p"
    by (rule neat_create_result [OF assms])
  have 0: "genomes ?p ! 0 = 1"
    using assms by (simp add: nth_upt del: upt_Suc)
  have i: "genome_at (genome_mem ?p) (genomes ?p ! i) = Some (neat_genome_copy K ?c)"
    if "0 < i" "i < ngenomes ?p" for i
  proof -
    from that have n: "genomes ?p ! i = Suc i" "i - 1 < ?N - 1"
      by (simp_all add: ngenomes_def nth_upt del: upt_Suc)
    then show ?thesis
      using that by (simp add: genome_at_def ngenomes_def nth_Cons')
  qed
  show ?thesis
    using c 0 i by (intro exI [of _ ?p]) (simp add: ngenomes_def genome_at_def)
qed

theorem neat_create_clones_witness:
  "\<exists>p. neat_create spec_collaborators config_example = Some p
     \<and> ngenomes p = 3 \<and> distinct (genomes p)
     \<and> genome_at (genome_mem p) (genomes p ! 0) = Some \<lparr>fitness = Num 0, time_alive = 0, body = 1\<rparr>
     \<and> genome_at (genome_mem p) (genomes p ! 2) = Some \<lparr>fitness = Num 0, time_alive = 0, body = 1\<rparr>
     \<and> species p = [spec_species_create config_example (genomes p ! 0)]"
proof -
  have "0 < population_size config_example"
    by (simp add: config_example_def)
  from neat_create_clones [OF this, of spec_collaborators]
  show ?thesis
    by (auto simp: spec_collaborators_def config_example_def)
qed

text \<open>
  C3 as stated fails: of the three genomes of the created population, the one species
  contains the base genome only.
\<close>

theorem neat_create_species_counterexample:
  "\<exists>p. neat_create spec_collaborators config_example = Some p
     \<and> genomes p = [1, 2, 3] \<and> map sp_genomes (species p) = [[1]]"
  using neat_create_result [of config_example spec_collaborators]
  by (simp add: config_example_def spec_collaborators_def spec_species_create_def
      upt_conv_Cons)

section \<open>Selecting the species\<close>

lemma select_loop_selected:
  "select_loop K rand_max r2 p w total_avg i n r
   = (case selected_species K p total_avg i n r of
        None \<Rightarrow> Some p
      | Some j \<Rightarrow> reproduce K rand_max r2 p w (species p ! j))"
  by (induction n arbitrary: i r) (simp_all add: Let_def)









lemma neat_epoch_selected:
  assumes "neat_find_worst_fitness p 0 = Some (True, w)"
  shows "neat_epoch K rand_max r1 r2 p
         = (case selected_species K (detach_worst K p w)
                   (neat_get_species_fitness_average K (detach_worst K p w)) 0
                   (nspecies (detach_worst K p w))
                   (rand_fraction rand_max r1) of
              None \<Rightarrow> Some (detach_worst K p w)
            | Some i \<Rightarrow> reproduce K rand_max r2 (detach_worst K p w) w
                         (species (detach_worst K p w) ! i))"
  using assms
  by (simp add: neat_epoch_def neat_select_reproduction_species_def select_loop_selected
      Let_def)


lemma find_worst_pop_example: "neat_find_worst_fitness pop_example 0 = Some (True, 1)"
proof -
  have n: "ngenomes pop_example = Suc (Suc (Suc 0))"
    by (simp add: pop_example_def ngenomes_def)
  show ?thesis
    unfolding neat_find_worst_fitness_def n
    by (simp add: pop_example_def genome_at_def config_example_def FLT_MAX_def)
qed

lemma detach_worst_pop_example:
  "detach_worst spec_collaborators pop_example 1 = pop_example"
  "detach_worst spec_collaborators pop_example (Suc 0) = pop_example"
  by (simp_all add: detach_worst_def pop_example_def spec_collaborators_def
      spec_species_remove_genome_def)












section \<open>Speciating and replacing\<close>

lemma speciate_loop_None:
  "(\<forall>j. i \<le> j \<and> j < i + n
       \<longrightarrow> \<not> neat_genome_is_compatible K (genome_mem p) g
             (neat_species_get_representant K (species p ! j))
             (genome_compatibility_treshold (conf p))) \<Longrightarrow>
   speciate_loop K p g i n = None"
proof (induction n arbitrary: i)
  case 0
  then show ?case by simp
next
  case (Suc n)
  have "speciate_loop K p g (Suc i) n = None"
    using Suc.prems by (intro Suc.IH) simp
  then show ?case using Suc.prems by simp
qed

lemma speciate_loop_Some:
  "i \<le> j \<Longrightarrow> j < i + n \<Longrightarrow>
   neat_genome_is_compatible K (genome_mem p) g
     (neat_species_get_representant K (species p ! j))
     (genome_compatibility_treshold (conf p)) \<Longrightarrow>
   (\<forall>k. i \<le> k \<and> k < j
       \<longrightarrow> \<not> neat_genome_is_compatible K (genome_mem p) g
             (neat_species_get_representant K (species p ! k))
             (genome_compatibility_treshold (conf p))) \<Longrightarrow>
   speciate_loop K p g i n
   = Some (p\<lparr>species := (species p)[j := neat_species_add_genome K (species p ! j) g]\<rparr>)"
proof (induction n arbitrary: i)
  case 0
  then show ?case by simp
next
  case (Suc n)
  show ?case
  proof (cases "i = j")
    case True
    then show ?thesis using Suc.prems by simp
  next
    case False
    then have "speciate_loop K p g (Suc i) n
      = Some (p\<lparr>species := (species p)[j := neat_species_add_genome K (species p ! j) g]\<rparr>)"
      using Suc.prems by (intro Suc.IH) simp_all
    moreover have "\<not> neat_genome_is_compatible K (genome_mem p) g
             (neat_species_get_representant K (species p ! i))
             (genome_compatibility_treshold (conf p))"
      using Suc.prems False by simp
    ultimately show ?thesis by simp
  qed
qed

lemma neat_speciate_genome_result:
  assumes "w < ngenomes p"
  shows "\<exists>p'. neat_speciate_genome K p w = Some p'
           \<and> genomes p' = genomes p \<and> genome_mem p' = genome_mem p
           \<and> ((\<exists>j<nspecies p.
                   neat_genome_is_compatible K (genome_mem p) (genomes p ! w)
                     (neat_species_get_representant K (species p ! j))
                     (genome_compatibility_treshold (conf p))
                   \<and> (\<forall>k<j. \<not> neat_genome_is_compatible K (genome_mem p) (genomes p ! w)
                               (neat_species_get_representant K (species p ! k))
                               (genome_compatibility_treshold (conf p)))
                   \<and> species p'
                       = (species p)[j := neat_species_add_genome K (species p ! j)
                                            (genomes p ! w)])
                \<or> ((\<forall>j<nspecies p.
                       \<not> neat_genome_is_compatible K (genome_mem p) (genomes p ! w)
                           (neat_species_get_representant K (species p ! j))
                           (genome_compatibility_treshold (conf p)))
                    \<and> species p'
                        = species p @ [neat_species_add_genome K
                                         (neat_species_create K (conf p) 0) (genomes p ! w)]))"
proof -
  let ?g = "genomes p ! w"
  let ?c = "\<lambda>j. neat_genome_is_compatible K (genome_mem p) ?g
                  (neat_species_get_representant K (species p ! j))
                  (genome_compatibility_treshold (conf p))"
  show ?thesis
  proof (cases "\<exists>j<nspecies p. ?c j")
    case True
    define j where "j = (LEAST j. j < nspecies p \<and> ?c j)"
    from True have j: "j < nspecies p \<and> ?c j"
      unfolding j_def by (metis (mono_tags, lifting) LeastI)
    have m: "\<not> ?c k" if "k < j" for k
    proof
      assume "?c k"
      moreover have "k < nspecies p" using that j by simp
      ultimately have "j \<le> k" unfolding j_def by (intro Least_le) simp
      with that show False by simp
    qed
    have "speciate_loop K p ?g 0 (nspecies p)
          = Some (p\<lparr>species := (species p)[j := neat_species_add_genome K (species p ! j) ?g]\<rparr>)"
      using j m by (intro speciate_loop_Some) simp_all
    then have "neat_speciate_genome K p w
          = Some (p\<lparr>species := (species p)[j := neat_species_add_genome K (species p ! j) ?g]\<rparr>)"
      using assms by (simp add: neat_speciate_genome_def)
    then show ?thesis using j m by auto
  next
    case False
    then have "speciate_loop K p ?g 0 (nspecies p) = None"
      by (intro speciate_loop_None) simp
    then have "neat_speciate_genome K p w
          = Some (p\<lparr>species := species p @ [neat_species_add_genome K
                                         (neat_species_create K (conf p) 0) ?g]\<rparr>)"
      using assms by (simp add: neat_speciate_genome_def neat_create_new_species_def)
    then show ?thesis using False by auto
  qed
qed

lemma find_worst_loop_found:
  "find_worst_loop p i n (f, w, x) = Some (True, w', x') \<Longrightarrow>
   (f \<longrightarrow> w < length (genomes p)) \<Longrightarrow> w' < length (genomes p)"
proof (induction n arbitrary: i f w x)
  case 0
  then show ?case by simp
next
  case (Suc n)
  from Suc.prems(1) have i: "i < length (genomes p)"
    by (simp split: if_splits)
  from Suc.prems(1) i obtain g where g: "genome_at (genome_mem p) (genomes p ! i) = Some g"
    by (auto split: option.splits)
  show ?case
  proof (cases "flt (fitness g) x \<and> genome_minimum_ticks_alive (conf p) < time_alive g")
    case True
    then have "find_worst_loop p (Suc i) n (True, i, fitness g) = Some (True, w', x')"
      using Suc.prems(1) i g by simp
    then show ?thesis using i by (intro Suc.IH [of "Suc i" True i "fitness g"]) simp_all
  next
    case False
    then have "find_worst_loop p (Suc i) n (f, w, x) = Some (True, w', x')"
      using Suc.prems(1) i g by auto
    then show ?thesis using Suc.prems(2) by (rule Suc.IH)
  qed
qed

lemma neat_find_worst_fitness_found:
  "neat_find_worst_fitness p w0 = Some (True, w) \<Longrightarrow> w < ngenomes p"
  unfolding neat_find_worst_fitness_def ngenomes_def
  by (auto split: option.splits dest: find_worst_loop_found)


lemma neat_speciate_genome_frame:
  "neat_speciate_genome K p w = Some p' \<Longrightarrow>
   genomes p' = genomes p \<and> genome_mem p' = genome_mem p"
  using neat_speciate_genome_result [of w p K]
  by (cases "w < ngenomes p") (auto simp: neat_speciate_genome_def)

lemma neat_replace_genome_frame:
  assumes "neat_replace_genome K p w src = Some p'"
  shows "length (genomes p') = length (genomes p)
         \<and> (\<forall>j. j \<noteq> w \<longrightarrow> genomes p' ! j = genomes p ! j)
         \<and> (\<forall>a<length (genome_mem p). a \<noteq> genomes p ! w \<longrightarrow> genome_mem p' ! a = genome_mem p ! a)"
  using assms
  by (auto simp: neat_replace_genome_def genome_free_def genome_alloc_def genome_at_def
      nth_append split: if_splits option.splits)

lemma reproduce_frame:
  assumes "reproduce K rand_max r2 p w s = Some p'"
  shows "length (genomes p') = length (genomes p)
         \<and> (\<forall>j. j \<noteq> w \<longrightarrow> genomes p' ! j = genomes p ! j)
         \<and> (\<forall>a<length (genome_mem p). a \<noteq> genomes p ! w \<longrightarrow> genome_mem p' ! a = genome_mem p ! a)"
proof (cases "flt (rand_fraction rand_max r2)
                (species_crossover_probability (conf p))")
  case True
  then have "neat_speciate_genome K p w = Some p'"
    using assms by (simp add: reproduce_def)
  then show ?thesis using neat_speciate_genome_frame by fastforce
next
  case False
  then obtain p1 where
    1: "neat_replace_genome K p w (neat_species_select_genitor K (genome_mem p) s) = Some p1"
    and 2: "neat_speciate_genome K p1 w = Some p'"
    using assms by (auto simp: reproduce_def split: option.splits)
  from neat_speciate_genome_frame [OF 2] neat_replace_genome_frame [OF 1]
  show ?thesis by simp
qed

text \<open>
  C8. No operation changes the array of the genome pointers, but the epoch, which leaves
  its length as it is and changes at most one slot \<open>w\<close>: every other slot points where
  it pointed, and every genome object but the one slot \<open>w\<close> pointed to is as it was.
\<close>

theorem neat_population_size_constant:
  "(\<forall>p' outputs. neat_run K p i inputs = Some (p', outputs)
       \<longrightarrow> ngenomes p' = ngenomes p \<and> genomes p' = genomes p)
   \<and> (\<forall>p'. neat_set_fitness p i f = Some p'
       \<longrightarrow> ngenomes p' = ngenomes p \<and> genomes p' = genomes p)
   \<and> (\<forall>p'. neat_increase_time_alive p i = Some p'
       \<longrightarrow> ngenomes p' = ngenomes p \<and> genomes p' = genomes p)
   \<and> (\<forall>p'. neat_epoch K rand_max r1 r2 p = Some p'
       \<longrightarrow> ngenomes p' = ngenomes p
           \<and> (\<exists>w. (\<forall>j. j \<noteq> w \<longrightarrow> genomes p' ! j = genomes p ! j)
                  \<and> (\<forall>a<length (genome_mem p). a \<noteq> genomes p ! w
                        \<longrightarrow> genome_mem p' ! a = genome_mem p ! a)))"
proof -
  have 1: "ngenomes p' = ngenomes p \<and> genomes p' = genomes p"
    if "neat_run K p i inputs = Some (p', outputs)" for p' outputs
    using that
    by (auto simp: neat_run_def ngenomes_def split: if_splits option.splits prod.splits)
  have 2: "ngenomes p' = ngenomes p \<and> genomes p' = genomes p"
    if "neat_set_fitness p i f = Some p'" for p'
    using that by (auto simp: neat_set_fitness_def ngenomes_def split: if_splits option.splits)
  have 3: "ngenomes p' = ngenomes p \<and> genomes p' = genomes p"
    if "neat_increase_time_alive p i = Some p'" for p'
    using that
    by (auto simp: neat_increase_time_alive_def ngenomes_def split: if_splits option.splits)
  have 4: "ngenomes p' = ngenomes p
           \<and> (\<exists>w. (\<forall>j. j \<noteq> w \<longrightarrow> genomes p' ! j = genomes p ! j)
                  \<and> (\<forall>a<length (genome_mem p). a \<noteq> genomes p ! w
                        \<longrightarrow> genome_mem p' ! a = genome_mem p ! a))"
    if e: "neat_epoch K rand_max r1 r2 p = Some p'" for p'
  proof -
    from e obtain found w where f: "neat_find_worst_fitness p 0 = Some (found, w)"
      by (auto simp: neat_epoch_def split: option.splits)
    show ?thesis
    proof (cases found)
      case False
      then have "p' = p" using e f by (simp add: neat_epoch_def)
      then show ?thesis by simp
    next
      case True
      let ?p = "detach_worst K p w"
      have d: "genomes ?p = genomes p" "genome_mem ?p = genome_mem p"
        by (simp_all add: detach_worst_def)
      note s = neat_epoch_selected [of p w K rand_max r1 r2]
      show ?thesis
      proof (cases "selected_species K ?p (neat_get_species_fitness_average K ?p) 0
                      (nspecies ?p) (rand_fraction rand_max r1)")
        case None
        then have "p' = ?p" using e f True s by simp
        then show ?thesis using d by (simp add: ngenomes_def)
      next
        case (Some k)
        then have "reproduce K rand_max r2 ?p w (species ?p ! k) = Some p'"
          using e f True s by simp
        from reproduce_frame [OF this] show ?thesis
          unfolding d ngenomes_def by blast
      qed
    qed
  qed
  from 1 2 3 4 show ?thesis by blast
qed


lemma rand_fraction_32767:
  "rand_fraction 32767 32767 = Num 1"
  "rand_fraction 32767 0 = Num 0"
  by (simp_all add: rand_fraction_def float_eval)

lemma selected_pop_example:
  "selected_species spec_collaborators pop_example
     (neat_get_species_fitness_average spec_collaborators pop_example) 0
     (nspecies pop_example) (rand_fraction 32767 16383)
   = Some 0"
proof -
  have n: "nspecies pop_example = Suc 0"
    by (simp add: nspecies_def pop_example_def)
  have f: "to_float 2 = Num 2" "to_double 1 = Num 1" "to_double 2 = Num 2"
    "to_float 1 = Num 1"
    by (simp_all add: float_eval)
  have a: "neat_get_species_fitness_average spec_collaborators pop_example = Num 2"
    by (simp add: neat_get_species_fitness_average_def nspecies_def pop_example_def
        spec_collaborators_def spec_species_get_average_fitness_def genome_at_def f)
  obtain x where r: "rand_fraction 32767 16383 = Num x" and x: "x \<le> 1"
    using rand_fraction_unit [of 32767 16383] by auto
  show ?thesis
    unfolding n a r using x
    by (simp add: pop_example_def spec_collaborators_def spec_species_get_average_fitness_def
        genome_at_def fgt_def f)
qed

lemma compatible_pop_example:
  "neat_genome_is_compatible spec_collaborators (genome_mem pop_example)
     (genomes pop_example ! 1)
     (neat_species_get_representant spec_collaborators (species pop_example ! 0))
     (genome_compatibility_treshold (conf pop_example))"
  by (simp add: spec_collaborators_def spec_genome_is_compatible_def pop_example_def
      config_example_def genome_at_def fgt_def)

theorem neat_population_size_constant_witness:
  "\<exists>p'. neat_epoch spec_collaborators 32767 16383 32767 pop_example = Some p'
     \<and> genomes p' = [1, 4, 3] \<and> ngenomes p' = ngenomes pop_example
     \<and> (\<exists>w. (\<forall>j. j \<noteq> w \<longrightarrow> genomes p' ! j = genomes pop_example ! j)
            \<and> (\<forall>a<length (genome_mem pop_example). a \<noteq> genomes pop_example ! w
                  \<longrightarrow> genome_mem p' ! a = genome_mem pop_example ! a))"
proof -
  let ?K = "spec_collaborators"
  let ?p' = "\<lparr>solved = False, conf = config_example, innovation = 2, genomes = [1, 4, 3],
               species = [\<lparr>sp_genomes = [1, 4], sp_representant = 1\<rparr>],
               genome_mem = [None, Some \<lparr>fitness = Num 2, time_alive = 1, body = 1 :: nat\<rparr>,
                             None, Some \<lparr>fitness = Num 1, time_alive = 1, body = 1\<rparr>,
                             Some \<lparr>fitness = Num 2, time_alive = 1, body = 1\<rparr>]\<rparr>"
  have r: "reproduce ?K 32767 32767 pop_example 1 (species pop_example ! 0) = Some ?p'"
    by (simp add: reproduce_def neat_replace_genome_def neat_speciate_genome_def
        ngenomes_def nspecies_def genome_free_def genome_alloc_def genome_at_def
        pop_example_def config_example_def spec_collaborators_def
        spec_species_select_genitor_def spec_genome_is_compatible_def
        spec_species_add_genome_def fgt_def rand_fraction_32767)
  have e: "neat_epoch ?K 32767 16383 32767 pop_example = Some ?p'"
  proof -
    have "neat_epoch ?K 32767 16383 32767 pop_example
          = reproduce ?K 32767 32767 pop_example 1 (species pop_example ! 0)"
      using neat_epoch_selected [OF find_worst_pop_example, of ?K 32767 16383 32767]
      by (simp only: detach_worst_pop_example selected_pop_example option.case)
    then show ?thesis by (simp only: r)
  qed
  note t = neat_population_size_constant [of ?K pop_example 0 "[]" "Num 0" 32767 16383 32767]
  from t [THEN conjunct2, THEN conjunct2, THEN conjunct2, THEN spec, THEN mp, OF e]
  have "ngenomes ?p' = ngenomes pop_example
     \<and> (\<exists>w. (\<forall>j. j \<noteq> w \<longrightarrow> genomes ?p' ! j = genomes pop_example ! j)
            \<and> (\<forall>a<length (genome_mem pop_example). a \<noteq> genomes pop_example ! w
                  \<longrightarrow> genome_mem ?p' ! a = genome_mem pop_example ! a))"
    .
  with e show ?thesis by (intro exI [of _ ?p']) simp
qed

text \<open>
  C9. Take an epoch that has found the worst genome in slot \<open>w\<close>, selects a species, and
  whose second random value is below the crossover probability. It returns; the genome
  array and every genome object are as before; and the worst genome is added to the first
  species whose representative it is compatible with, or, when there is none, to a new
  species appended to the list; the species are otherwise those left after the worst
  genome was removed from them.
\<close>

theorem neat_epoch_crossover:
  assumes "neat_find_worst_fitness p 0 = Some (True, w)"
    and "selected_species K (detach_worst K p w)
           (neat_get_species_fitness_average K (detach_worst K p w)) 0
           (nspecies (detach_worst K p w)) (rand_fraction rand_max r1)
         = Some i"
    and "flt (rand_fraction rand_max r2)
           (species_crossover_probability (conf p))"
  shows "\<exists>p'. neat_epoch K rand_max r1 r2 p = Some p'
           \<and> genomes p' = genomes p \<and> genome_mem p' = genome_mem p
           \<and> ((\<exists>j<nspecies p.
                   neat_genome_is_compatible K (genome_mem p) (genomes p ! w)
                     (neat_species_get_representant K (species (detach_worst K p w) ! j))
                     (genome_compatibility_treshold (conf p))
                   \<and> (\<forall>k<j. \<not> neat_genome_is_compatible K (genome_mem p) (genomes p ! w)
                               (neat_species_get_representant K
                                  (species (detach_worst K p w) ! k))
                               (genome_compatibility_treshold (conf p)))
                   \<and> species p'
                       = (species (detach_worst K p w))
                           [j := neat_species_add_genome K (species (detach_worst K p w) ! j)
                                   (genomes p ! w)])
                \<or> ((\<forall>j<nspecies p.
                       \<not> neat_genome_is_compatible K (genome_mem p) (genomes p ! w)
                           (neat_species_get_representant K
                              (species (detach_worst K p w) ! j))
                           (genome_compatibility_treshold (conf p)))
                    \<and> species p'
                        = species (detach_worst K p w)
                          @ [neat_species_add_genome K (neat_species_create K (conf p) 0)
                               (genomes p ! w)]))"
proof -
  let ?p = "detach_worst K p w"
  have d: "genomes ?p = genomes p" "genome_mem ?p = genome_mem p" "conf ?p = conf p"
    "nspecies ?p = nspecies p"
    by (simp_all add: detach_worst_def nspecies_def)
  have w: "w < ngenomes ?p"
    using neat_find_worst_fitness_found [OF assms(1)] by (simp add: ngenomes_def d)
  have "neat_epoch K rand_max r1 r2 p = reproduce K rand_max r2 ?p w (species ?p ! i)"
    using neat_epoch_selected [OF assms(1), of K rand_max r1 r2] assms(2) by simp
  also have "\<dots> = neat_speciate_genome K ?p w"
    using assms(3) by (simp add: reproduce_def d)
  finally have e: "neat_epoch K rand_max r1 r2 p = neat_speciate_genome K ?p w" .
  from neat_speciate_genome_result [OF w, of K] show ?thesis
    unfolding e d by blast
qed

theorem neat_epoch_crossover_witness:
  "\<exists>p'. neat_epoch spec_collaborators 32767 16383 0 pop_example = Some p'
     \<and> genomes p' = genomes pop_example \<and> genome_mem p' = genome_mem pop_example
     \<and> species p' = [\<lparr>sp_genomes = [1, 2], sp_representant = 1\<rparr>]"
proof -
  let ?K = "spec_collaborators"
  have s: "selected_species ?K (detach_worst ?K pop_example 1)
           (neat_get_species_fitness_average ?K (detach_worst ?K pop_example 1)) 0
           (nspecies (detach_worst ?K pop_example 1))
           (rand_fraction 32767 16383) = Some 0"
    by (simp only: detach_worst_pop_example selected_pop_example)
  have c: "flt (rand_fraction 32767 0)
             (species_crossover_probability (conf pop_example))"
    by (simp add: pop_example_def config_example_def rand_fraction_32767)
  have n: "nspecies pop_example = 1"
    by (simp add: nspecies_def pop_example_def)
  from neat_epoch_crossover [OF find_worst_pop_example s c]
  obtain p' where e: "neat_epoch ?K 32767 16383 0 pop_example = Some p'"
    and g: "genomes p' = genomes pop_example" "genome_mem p' = genome_mem pop_example"
    and sp: "(\<exists>j<nspecies pop_example.
                species p' = (species pop_example)
                  [j := neat_species_add_genome ?K (species pop_example ! j)
                          (genomes pop_example ! 1)])
             \<or> (\<forall>j<nspecies pop_example.
                   \<not> neat_genome_is_compatible ?K (genome_mem pop_example)
                       (genomes pop_example ! 1)
                       (neat_species_get_representant ?K (species pop_example ! j))
                       (genome_compatibility_treshold (conf pop_example)))"
    unfolding detach_worst_pop_example by blast
  from sp compatible_pop_example
  have "species p' = (species pop_example)
          [0 := neat_species_add_genome ?K (species pop_example ! 0) (genomes pop_example ! 1)]"
    unfolding n by auto
  then have "species p' = [\<lparr>sp_genomes = [1, 2], sp_representant = 1\<rparr>]"
    by (simp add: pop_example_def spec_collaborators_def spec_species_add_genome_def)
  with e g show ?thesis by blast
qed

section \<open>The operations keep a network well laid out\<close>

lemma block_neuron_loop_length:
  "block_neuron_loop b act nw io n e wo oo = Some (e', wo', oo') \<Longrightarrow> length e' = length e"
proof (induction n arbitrary: e wo oo)
  case 0
  then show ?case by simp
next
  case (Suc n)
  from Suc.prems obtain wo1 v where
    "block_neuron_loop b act nw io n (e[oo := v]) wo1 (Suc oo) = Some (e', wo', oo')"
    by (auto split: if_splits option.splits)
  from Suc.IH [OF this] show ?case by simp
qed

lemma block_layer_loop_length:
  "block_layer_loop net i n e io wo oo = Some (e', io', wo', oo') \<Longrightarrow> length e' = length e"
proof (induction n arbitrary: i e io wo oo)
  case 0
  then show ?case by simp
next
  case (Suc n)
  from Suc.prems obtain e1 io1 wo1 oo1 where
    1: "block_neuron_loop (bias net) (hidden_activation net)
          (if i = 0 then unat (ninputs net) else unat (nhiddens net)) io
          (unat (nhiddens net)) e wo oo = Some (e1, wo1, oo1)"
    and 2: "block_layer_loop net (Suc i) n e1 io1 wo1 oo1 = Some (e', io', wo', oo')"
    by (auto simp: Let_def split: option.splits)
  from Suc.IH [OF 2] block_neuron_loop_length [OF 1] show ?case by simp
qed

lemma block_run_length:
  assumes "block_run net inputs = Some (e', r, wo, oo)"
  shows "length e' = length (extra net)"
proof -
  let ?n = "unat (4 * ninputs net) div 4" and ?b = "unat (nweights net)"
  let ?e0 = "take ?b (extra net) @ take ?n inputs @ drop (?b + ?n) (extra net)"
  from assms have n: "?n \<le> length inputs" and b: "?b + ?n \<le> length (extra net)"
    by (auto simp: block_run_def Let_def split: if_splits)
  then have l0: "length ?e0 = length (extra net)" by simp
  from assms n b obtain e2 io2 wo2 oo2 nw where
    1: "block_layer_loop net 0 (unat (nhidden_layers net)) ?e0 ?b 0 (?b + unat (ninputs net))
        = Some (e2, io2, wo2, oo2)"
    and 2: "block_neuron_loop (bias net) (output_activation net) nw io2 (unat (noutputs net))
              e2 wo2 oo2 = Some (e', wo, oo)"
    by (auto simp: block_run_def Let_def split: if_splits option.splits)
  from block_neuron_loop_length [OF 2] block_layer_loop_length [OF 1] l0 show ?thesis
    by simp
qed

lemma nn_ffnet_ok_with_extra:
  "nn_ffnet_ok m a \<Longrightarrow> length e = length (extra (m ! a)) \<Longrightarrow>
   nn_ffnet_ok (with_extra m a e) a
   \<and> topology_ok (with_extra m a e ! a) = topology_ok (m ! a)"
  by (simp add: nn_ffnet_ok_def topology_ok_def)

lemma nn_ffnet_run_keeps_ok:
  assumes "nn_ffnet_ok m a" and "nn_ffnet_run m a inputs = Some (m', ret)"
  shows "nn_ffnet_ok m' a \<and> topology_ok (m' ! a) = topology_ok (m ! a)"
proof -
  from assms(2) obtain e' r wo oo where
    b: "block_run (m ! a) inputs = Some (e', r, wo, oo)" and m': "m' = with_extra m a e'"
    by (auto simp: nn_ffnet_run_def run_layers_block [OF assms(1)]
        split: option.splits if_splits)
  from nn_ffnet_ok_with_extra [OF assms(1) block_run_length [OF b]] m' show ?thesis
    by simp
qed

lemma store_with_extra_eq:
  "store m p v = Some m' \<Longrightarrow>
   m' = with_extra m (fst p) ((extra (m ! fst p))[snd p := v])"
  by (auto simp: store_def with_extra_def split: if_splits)

lemma store_keeps_ok:
  assumes "store m p v = Some m'" and "nn_ffnet_ok m a"
  shows "nn_ffnet_ok m' a \<and> topology_ok (m' ! a) = topology_ok (m ! a)"
proof (cases "fst p = a")
  case True
  then show ?thesis
    using nn_ffnet_ok_with_extra [OF assms(2), of "(extra (m ! a))[snd p := v]"]
      store_with_extra_eq [OF assms(1)] by simp
next
  case False
  from store_other_block [OF assms(1) False] assms(2) show ?thesis
    by (simp add: nn_ffnet_ok_def)
qed

lemma randomize_loop_keeps_ok:
  "randomize_loop rand_max rnd w i n m = Some m' \<Longrightarrow> nn_ffnet_ok m a \<Longrightarrow>
   nn_ffnet_ok m' a \<and> topology_ok (m' ! a) = topology_ok (m ! a)"
proof (induction n arbitrary: i m)
  case 0
  then show ?case by simp
next
  case (Suc n)
  from Suc.prems(1) obtain v m1 where
    s: "store m (ptr_add w i) v = Some m1" and
    r: "randomize_loop rand_max rnd w (Suc i) n m1 = Some m'"
    by (auto split: option.splits)
  from store_keeps_ok [OF s Suc.prems(2)] Suc.IH [OF r] show ?case by simp
qed

lemma nn_ffnet_randomize_keeps_ok:
  "nn_ffnet_randomize rand_max rnd m a = Some m' \<Longrightarrow> nn_ffnet_ok m a \<Longrightarrow>
   nn_ffnet_ok m' a \<and> topology_ok (m' ! a) = topology_ok (m ! a)"
  by (auto simp: nn_ffnet_randomize_def split: if_splits dest: randomize_loop_keeps_ok)

lemma nn_ffnet_set_bias_keeps_ok:
  "nn_ffnet_set_bias m a b = Some m' \<Longrightarrow> nn_ffnet_ok m a \<Longrightarrow>
   nn_ffnet_ok m' a \<and> topology_ok (m' ! a) = topology_ok (m ! a)"
  by (auto simp: nn_ffnet_set_bias_def nn_ffnet_ok_def topology_ok_def split: if_splits)

lemma nn_ffnet_set_activations_keeps_ok:
  "nn_ffnet_set_activations m a h out = Some m' \<Longrightarrow> nn_ffnet_ok m a \<Longrightarrow>
   nn_ffnet_ok m' a \<and> topology_ok (m' ! a) = topology_ok (m ! a)"
  by (auto simp: nn_ffnet_set_activations_def nn_ffnet_ok_def topology_ok_def
      split: if_splits)

end
